theory Spec2Isabelle
  imports Main "HOL-Library.Word"
begin

section \<open>Strings, bytes and the digest\<close>

text \<open>
  A JavaScript string is modelled as the list of its code units; \<open>char\<close> covers the code
  units below 256, which is where all characters named by the program's patterns live.
  \<open>TextEncoder.encode\<close> is UTF-8: one byte for a code unit below 128, two bytes otherwise.
\<close>

type_synonym byte = "8 word"

definition utf8_unit :: "char \<Rightarrow> byte list" where
  "utf8_unit c =
     (let n = (of_char c :: nat)
      in if n < 128 then [of_nat n]
         else [of_nat (192 + n div 64), of_nat (128 + n mod 64)])"

definition encode :: "string \<Rightarrow> byte list" where
  "encode s = concat (map utf8_unit s)"

definition hexDigit :: "nat \<Rightarrow> char" where
  "hexDigit n = ''0123456789abcdef'' ! n"

text \<open>\<open>Number.prototype.toString(16)\<close> on a non-negative integer.\<close>

fun toString16 :: "nat \<Rightarrow> string" where
  "toString16 n =
     (if n < 16 then [hexDigit n] else toString16 (n div 16) @ [hexDigit (n mod 16)])"

declare toString16.simps [simp del]

definition padStart :: "nat \<Rightarrow> char \<Rightarrow> string \<Rightarrow> string" where
  "padStart n c s = replicate (n - length s) c @ s"

text \<open>
  \<open>sha256Hex\<close>: the digest of the encoded input, each byte rendered as
  \<open>b.toString(16).padStart(2, "0")\<close> and the pieces joined. The platform's
  \<open>crypto.subtle.digest("SHA-256", _)\<close> is the parameter \<open>digest\<close>.
\<close>

definition sha256Hex :: "(byte list \<Rightarrow> byte list) \<Rightarrow> string \<Rightarrow> string" where
  "sha256Hex digest input =
     concat (map (\<lambda>b. padStart 2 (CHR ''0'') (toString16 (unat b))) (digest (encode input)))"

section \<open>The data model\<close>

text \<open>
  An absent (or null) property is \<open>None\<close>. The records are parametric in the representation
  of their nested arrays and objects: the values themselves in the value model below, addresses
  in the store model of the last section.
\<close>

record history_entry =
  date :: string
  event :: string
  hash :: "string option"

record 's note_rec =
  n_text :: "string option"
  n_urls :: 's
  n_date :: "string option"

record 's response_rec =
  response_id :: "string option"
  r_date :: "string option"
  r_decisionMaker :: "string option"
  r_text :: "string option"
  r_urls :: 's
  r_attachments :: 's

record ('s, 'ns, 'rs) concern_rec =
  concern_id :: "string option"
  summary :: "string option"
  details :: "string option"
  decisionMaker :: "string option"
  responseDate :: "string option"
  response :: "string option"
  evidence :: 's
  concern_notes :: 'ns
  responses :: 'rs
  attachments :: 's

record ('m, 's) overrides_rec =
  flags :: "(string \<times> bool) list"
  ov_concerns :: 'm
  safeAttachments :: 's

record ('cs, 's, 'hs, 'ov) complaint_rec =
  complaint_id :: "string option"
  title :: "string option"
  dateFiled :: "string option"
  complaint_type :: "string option"
  institution :: "string option"
  contactPerson :: "string option"
  complaintContent :: "string option"
  linkedSAR :: "string option"
  concerns :: 'cs
  status :: "string option"
  escalationPath :: 's
  isPasswordProtected :: bool
  passwordHint :: "string option"
  institutionAddress :: "string option"
  institutionEmail :: "string option"
  eventDate :: "string option"
  refusalDate :: "string option"
  expectedResponseFrequency :: "string option"
  lastResponseDate :: "string option"
  agreedTerms :: "string option"
  breachFlag :: bool
  complaint_attachments :: 's
  history :: 'hs
  redactOverrides :: 'ov
  protected :: "string option"

type_synonym note_entry = "string list option note_rec"
type_synonym response_entry = "string list option response_rec"
type_synonym concern = "(string list option, note_entry list option, response_entry list option) concern_rec"
type_synonym concern_flags = "(string \<times> bool) list"
type_synonym overrides = "((string \<times> concern_flags) list option, string list option) overrides_rec"
type_synonym complaint =
  "(concern list option, string list option, history_entry list option, overrides option) complaint_rec"

section \<open>Audit chain\<close>

text \<open>
  \<open>appendHistory\<close> is an \<open>async\<close> function. A call runs the first three lines of its body
  at once: it reads the clock (\<open>now\<close> is the string \<open>new Date().toISOString()\<close> returns,
  \<open>slice(0, 10)\<close> keeps its first ten code units), reads \<open>prevHash\<close> from the history as it
  is at that moment (\<open>x.hash || ""\<close> turns a missing or empty hash into the empty string),
  and starts the digest. There it suspends at the \<open>await\<close>, holding \<open>date\<close>, \<open>eventText\<close>
  and the digest that will be \<open>hash\<close>: together, the entry it is going to push.
\<close>

definition appendHistory_call ::
    "(byte list \<Rightarrow> byte list) \<Rightarrow> string \<Rightarrow> ('cs, 's, history_entry list option, 'ov) complaint_rec
      \<Rightarrow> string \<Rightarrow> history_entry" where
  "appendHistory_call digest now complaint eventText =
     (let date = take 10 now;
          prevHash = (case history complaint of
                        None \<Rightarrow> ''''
                      | Some [] \<Rightarrow> ''''
                      | Some (x # xs) \<Rightarrow> (case hash (last (x # xs)) of None \<Rightarrow> '''' | Some s \<Rightarrow> s));
          hash = sha256Hex digest (prevHash @ ''|'' @ date @ ''|'' @ eventText)
      in \<lparr>date = date, event = eventText, hash = Some hash\<rparr>)"

text \<open>
  When the digest has resolved, the call resumes with the last two lines of the body, on the
  complaint as it is then: \<open>complaint.history = complaint.history || []\<close> and the \<open>push\<close>.
\<close>

definition appendHistory_resume ::
    "('cs, 's, history_entry list option, 'ov) complaint_rec \<Rightarrow> history_entry
      \<Rightarrow> ('cs, 's, history_entry list option, 'ov) complaint_rec" where
  "appendHistory_resume complaint entry =
     (let hist = (case history complaint of None \<Rightarrow> [] | Some xs \<Rightarrow> xs)
      in complaint\<lparr>history := Some (hist @ [entry])\<rparr>)"

text \<open>
  The event loop, as far as one complaint is concerned: the complaint object, and the calls of
  \<open>appendHistory\<close> on it that are suspended at their \<open>await\<close>. A job either starts a call
  (at a clock reading, with an event text) or resumes the suspended call at an index. A
  handler that writes \<open>appendHistory(\<dots>)\<close> without \<open>await\<close> goes on while that call is
  suspended, and may start another.
\<close>

record ('cs, 's, 'ov) loop_state =
  complaint_obj :: "('cs, 's, history_entry list option, 'ov) complaint_rec"
  suspended :: "history_entry list"

datatype job = Call string string | Resume nat

fun step ::
    "(byte list \<Rightarrow> byte list) \<Rightarrow> ('cs, 's, 'ov) loop_state \<Rightarrow> job \<Rightarrow> ('cs, 's, 'ov) loop_state" where
  "step digest st (Call now eventText) =
     st\<lparr>suspended := suspended st @ [appendHistory_call digest now (complaint_obj st) eventText]\<rparr>"
| "step digest st (Resume i) =
     (if i < length (suspended st)
      then \<lparr>complaint_obj = appendHistory_resume (complaint_obj st) (suspended st ! i),
            suspended = take i (suspended st) @ drop (Suc i) (suspended st)\<rparr>
      else st)"

definition run ::
    "(byte list \<Rightarrow> byte list) \<Rightarrow> job list \<Rightarrow> ('cs, 's, 'ov) loop_state \<Rightarrow> ('cs, 's, 'ov) loop_state" where
  "run digest jobs st = foldl (step digest) st jobs"

text \<open>
  \<open>await appendHistory(complaint, eventText)\<close> in a handler, while no other call is suspended
  on the complaint: the call is started, and resumed before anything else runs.
\<close>

definition appendHistory ::
    "(byte list \<Rightarrow> byte list) \<Rightarrow> string \<Rightarrow> ('cs, 's, history_entry list option, 'ov) complaint_rec
      \<Rightarrow> string \<Rightarrow> ('cs, 's, history_entry list option, 'ov) complaint_rec" where
  "appendHistory digest now complaint eventText =
     complaint_obj (run digest [Call now eventText, Resume 0] \<lparr>complaint_obj = complaint, suspended = []\<rparr>)"

text \<open>The loop of \<open>verifyHistoryChain\<close>, with its accumulator \<open>prev\<close>.\<close>

fun verifyHistoryChain_loop :: "(byte list \<Rightarrow> byte list) \<Rightarrow> string \<Rightarrow> history_entry list \<Rightarrow> bool" where
  "verifyHistoryChain_loop digest prev [] = True"
| "verifyHistoryChain_loop digest prev (h # hist) =
     (let expected = sha256Hex digest (prev @ ''|'' @ date h @ ''|'' @ event h)
      in case hash h of
           None \<Rightarrow> False
         | Some s \<Rightarrow> if s \<noteq> expected then False else verifyHistoryChain_loop digest s hist)"

definition verifyHistoryChain ::
    "(byte list \<Rightarrow> byte list) \<Rightarrow> ('cs, 's, history_entry list option, 'ov) complaint_rec \<Rightarrow> bool" where
  "verifyHistoryChain digest complaint =
     verifyHistoryChain_loop digest '''' (case history complaint of None \<Rightarrow> [] | Some xs \<Rightarrow> xs)"

text \<open>
  The backfill pass of \<open>Data.init\<close>: the inner loop over one history, and the outer loop over
  the loaded complaints. \<open>!h.hash\<close> holds for a missing and for an empty hash.
\<close>

fun backfill_loop :: "(byte list \<Rightarrow> byte list) \<Rightarrow> string \<Rightarrow> history_entry list \<Rightarrow> history_entry list" where
  "backfill_loop digest prev [] = []"
| "backfill_loop digest prev (h # hist) =
     (let expected = sha256Hex digest (prev @ ''|'' @ date h @ ''|'' @ event h)
      in case hash h of
           None \<Rightarrow> h\<lparr>hash := Some expected\<rparr> # backfill_loop digest expected hist
         | Some s \<Rightarrow>
             if s = '''' \<or> s \<noteq> expected
             then h\<lparr>hash := Some expected\<rparr> # backfill_loop digest expected hist
             else h # backfill_loop digest s hist)"

definition backfill ::
    "(byte list \<Rightarrow> byte list) \<Rightarrow> ('cs, 's, history_entry list option, 'ov) complaint_rec
      \<Rightarrow> ('cs, 's, history_entry list option, 'ov) complaint_rec" where
  "backfill digest c =
     (case history c of
        None \<Rightarrow> c
      | Some hist \<Rightarrow> c\<lparr>history := Some (backfill_loop digest '''' hist)\<rparr>)"

definition init_backfill ::
    "(byte list \<Rightarrow> byte list) \<Rightarrow> ('cs, 's, history_entry list option, 'ov) complaint_rec list
      \<Rightarrow> ('cs, 's, history_entry list option, 'ov) complaint_rec list" where
  "init_backfill digest complaints = map (backfill digest) complaints"

text \<open>The jobs of handlers that await each of their \<open>appendHistory\<close> calls.\<close>

definition awaited :: "(string \<times> string) list \<Rightarrow> job list" where
  "awaited calls = concat (map (\<lambda>(now, eventText). [Call now eventText, Resume 0]) calls)"

text \<open>
  The status handler (\<open>#editBtn\<close>) on a status that names the ombudsman: it starts
  \<open>appendHistory(complaint, `Status updated: ${newStatus}`)\<close> without \<open>await\<close> and goes on to
  \<open>autoCreatePhsoCase\<close>, which reaches its own \<open>await appendHistory(complaint, `PHSO case
  created: ${phso.id}`)\<close> before the first digest has resolved; the two calls then resume in
  the order in which they were started.
\<close>

definition statusHandler :: "string \<Rightarrow> string \<Rightarrow> string \<Rightarrow> string \<Rightarrow> job list" where
  "statusHandler now1 newStatus now2 phsoId =
     [Call now1 (''Status updated: '' @ newStatus), Call now2 (''PHSO case created: '' @ phsoId),
      Resume 0, Resume 0]"

text \<open>
  The rendering and the encoding as the specification names them, for comparison with
  \<open>sha256Hex\<close>. Lowercase hexadecimal: two digits a byte, the high half first, from
  \<open>0\<close> to \<open>9\<close> and \<open>a\<close> to \<open>f\<close>. UTF-8 of a code unit below 256: the unit itself below
  128, otherwise the two bytes \<open>110000xx 10xxxxxx\<close> carrying its eight bits.
\<close>

definition hexChar :: "nat \<Rightarrow> char" where
  "hexChar n = (if n < 10 then char_of (48 + n) else char_of (87 + n))"

definition lowercaseHex :: "byte list \<Rightarrow> string" where
  "lowercaseHex bs = concat (map (\<lambda>b. [hexChar (unat b div 16), hexChar (unat b mod 16)]) bs)"

definition utf8 :: "string \<Rightarrow> byte list" where
  "utf8 s = concat (map (\<lambda>c. let w = (of_char c :: byte)
                             in if w < 0x80 then [w] else [or 0xC0 (drop_bit 6 w), or 0x80 (take_bit 6 w)]) s)"
text \<open>
  The predecessor hash \<open>appendHistory\<close> reads: the last entry's hash, the empty string for an
  empty history, a missing hash read as the empty string.
\<close>

definition lastHash :: "string \<Rightarrow> history_entry list \<Rightarrow> string" where
  "lastHash prev hist =
     (case hist of [] \<Rightarrow> prev
      | x # xs \<Rightarrow> (case hash (last (x # xs)) of None \<Rightarrow> '''' | Some s \<Rightarrow> s))"

text \<open>A record of the bundled data set, used to run the operations on a concrete input.\<close>

definition seed_complaint :: complaint where
  "seed_complaint =
     \<lparr> complaint_id = Some ''cmp_001'',
       title = Some ''Failure to respond to SAR'',
       dateFiled = Some ''2025-05-01'',
       complaint_type = None,
       institution = Some ''Devon & Cornwall Police'',
       contactPerson = Some ''PSD'',
       complaintContent = Some ''No response received to SAR within statutory time.'',
       linkedSAR = Some ''sar_001'',
       concerns = Some [
         \<lparr> concern_id = Some ''conc_001'',
           summary = Some ''No monthly update'',
           details = Some ''Breach of agreed monthly contact'',
           decisionMaker = Some ''PSD'',
           responseDate = Some '''',
           response = Some '''',
           evidence = Some [''https://example.org/ref-1''],
           concern_notes = Some [],
           responses = Some [],
           attachments = Some [] \<rparr>],
       status = Some ''Filed'',
       escalationPath = Some [''Filed''],
       isPasswordProtected = False,
       passwordHint = Some '''',
       institutionAddress = Some '''',
       institutionEmail = Some '''',
       eventDate = None,
       refusalDate = None,
       expectedResponseFrequency = Some ''Monthly'',
       lastResponseDate = Some '''',
       agreedTerms = Some ''Monthly update required'',
       breachFlag = False,
       complaint_attachments = Some [],
       history = Some [],
       redactOverrides = None,
       protected = None \<rparr>"

text \<open>
  The seed record after two appends under the identity function as digest, and the second
  entry with its event text altered.
\<close>

definition chained_history :: "history_entry list" where
  "chained_history =
     [\<lparr>date = ''2025-01-10'', event = ''Created'',
        hash = Some ''7c323032352d30312d31307c43726561746564''\<rparr>,
      \<lparr>date = ''2025-01-11'', event = ''Filed'',
        hash = Some ''37633332333033323335326433303331326433313330376334333732363536313734363536347c323032352d30312d31317c46696c6564''\<rparr>]"

definition tampered_entry :: history_entry where
  "tampered_entry =
     \<lparr>date = ''2025-01-11'', event = ''Closed'',
      hash = Some ''37633332333033323335326433303331326433313330376334333732363536313734363536347c323032352d30312d31317c46696c6564''\<rparr>"

definition legacy_history :: "history_entry list" where
  "legacy_history =
     [\<lparr>date = ''2024-03-01'', event = ''Created'', hash = None\<rparr>,
      \<lparr>date = ''2024-03-02'', event = ''Filed'', hash = Some ''00ff''\<rparr>]"


text \<open>
  A one-entry history whose event text holds the separator, valid under the identity function
  as digest, and an entry with the same hash in which the text up to the separator has moved
  from the event into the date.
\<close>

definition separator_history :: "history_entry list" where
  "separator_history =
     [\<lparr>date = ''2025-01-10'', event = ''a|b'', hash = Some ''7c323032352d30312d31307c617c62''\<rparr>]"

definition separator_entry :: history_entry where
  "separator_entry =
     \<lparr>date = ''2025-01-10|a'', event = ''b'', hash = Some ''7c323032352d30312d31307c617c62''\<rparr>"
section \<open>Pattern matching\<close>

text \<open>
  The fragment of ECMAScript regular expressions the program's four patterns are written in:
  character classes, greedy quantifiers on a class, the word-boundary assertion, literal
  words, sequence and alternation. A class is the list of its members.
\<close>

datatype regex =
    Cls "char list"
  | Rep "char list" nat "nat option"
  | WordB
  | Lit string
  | Cat regex regex
  | Alt regex regex

fun seq :: "regex list \<Rightarrow> regex" where
  "seq [] = Lit ''''"
| "seq [r] = r"
| "seq (r # rs) = Cat r (seq rs)"

definition digits :: "char list" where
  "digits = ''0123456789''"

definition upper :: "char list" where
  "upper = ''ABCDEFGHIJKLMNOPQRSTUVWXYZ''"

definition lower :: "char list" where
  "lower = ''abcdefghijklmnopqrstuvwxyz''"

text \<open>\<open>\s\<close> among the code units below 256: tab, line feed, vertical tab, form feed, carriage
  return, space and no-break space.\<close>

definition whitespace :: "char list" where
  "whitespace = [CHR 0x09, CHR 0x0A, CHR 0x0B, CHR 0x0C, CHR 0x0D, CHR 0x20, CHR 0xA0]"

definition wordChars :: "char list" where
  "wordChars = upper @ lower @ digits @ ''_''"

text \<open>
  Canonicalisation under the \<open>i\<close> flag (without \<open>u\<close>): upper-casing. The patterns name ASCII
  characters only, and no code unit from 128 on canonicalises to an ASCII character, so
  upper-casing the ASCII letters decides every comparison the patterns make.
\<close>

definition toUpper :: "char \<Rightarrow> char" where
  "toUpper c = (case map_of (zip lower upper) c of None \<Rightarrow> c | Some u \<Rightarrow> u)"

definition canonicalize :: "bool \<Rightarrow> char \<Rightarrow> char" where
  "canonicalize ignoreCase c = (if ignoreCase then toUpper c else c)"

definition inClass :: "bool \<Rightarrow> char list \<Rightarrow> char \<Rightarrow> bool" where
  "inClass ignoreCase cs c = (canonicalize ignoreCase c \<in> set (map (canonicalize ignoreCase) cs))"

definition isWordChar :: "char option \<Rightarrow> bool" where
  "isWordChar p = (case p of None \<Rightarrow> False | Some c \<Rightarrow> c \<in> set wordChars)"

text \<open>The code unit before the position reached after \<open>n\<close> more units; \<open>p\<close> is the one
  before the start (\<open>None\<close> at the start of the input).\<close>

definition prevAt :: "char option \<Rightarrow> string \<Rightarrow> nat \<Rightarrow> char option" where
  "prevAt p s n = (if take n s = [] then p else Some (last (take n s)))"

text \<open>
  \<open>ends ignoreCase r p s\<close>: the lengths of the matches of \<open>r\<close> at the start of \<open>s\<close>, in the
  order in which the backtracking matcher finds them: a greedy quantifier tries the longest
  run first, an alternation its left branch first. The match found is the head of the list.
\<close>

fun ends :: "bool \<Rightarrow> regex \<Rightarrow> char option \<Rightarrow> string \<Rightarrow> nat list" where
  "ends ic (Cls cs) p s = (case s of [] \<Rightarrow> [] | c # _ \<Rightarrow> if inClass ic cs c then [1] else [])"
| "ends ic (Rep cs lo hi) p s =
     (let k = length (takeWhile (inClass ic cs) s);
          m = (case hi of None \<Rightarrow> k | Some h \<Rightarrow> min h k)
      in if m < lo then [] else rev [lo..<Suc m])"
| "ends ic WordB p s =
     (if isWordChar p \<noteq> isWordChar (case s of [] \<Rightarrow> None | c # _ \<Rightarrow> Some c) then [0] else [])"
| "ends ic (Lit w) p s =
     (if length w \<le> length s \<and> map (canonicalize ic) (take (length w) s) = map (canonicalize ic) w
      then [length w] else [])"
| "ends ic (Cat r1 r2) p s =
     concat (map (\<lambda>n. map (\<lambda>k. n + k) (ends ic r2 (prevAt p s n) (drop n s))) (ends ic r1 p s))"
| "ends ic (Alt r1 r2) p s = ends ic r1 p s @ ends ic r2 p s"

text \<open>
  \<open>String.prototype.replace\<close> with a pattern carrying the \<open>g\<close> flag and a replacement
  string without \<open>$\<close>: scan from the left; at each position take the match found there, if
  any, emit the replacement and continue after the match (one unit further when the match is
  empty); otherwise keep the unit. \<open>k\<close> counts the units of a match still to be skipped.
\<close>

fun replace_loop :: "bool \<Rightarrow> regex \<Rightarrow> string \<Rightarrow> nat \<Rightarrow> char option \<Rightarrow> string \<Rightarrow> string" where
  "replace_loop ic r rep k p [] = (if k = 0 \<and> ends ic r p [] \<noteq> [] then rep else [])"
| "replace_loop ic r rep (Suc k) p (c # cs) = replace_loop ic r rep k (Some c) cs"
| "replace_loop ic r rep 0 p (c # cs) =
     (case ends ic r p (c # cs) of
        [] \<Rightarrow> c # replace_loop ic r rep 0 (Some c) cs
      | n # _ \<Rightarrow>
          if n = 0 then rep @ c # replace_loop ic r rep 0 (Some c) cs
          else rep @ replace_loop ic r rep (n - 1) (Some c) cs)"

definition replace :: "bool \<Rightarrow> regex \<Rightarrow> string \<Rightarrow> string \<Rightarrow> string" where
  "replace ic r rep s = replace_loop ic r rep 0 None s"

section \<open>Masking\<close>

text \<open>The four patterns of \<open>maskText\<close>; \<open>email\<close> and \<open>badge\<close> carry the \<open>i\<close> flag.\<close>

definition email :: regex where
  "email = seq [Rep (upper @ digits @ ''._%+-'') 1 None, Cls ''@'',
                Rep (upper @ digits @ ''.-'') 1 None, Cls ''.'', Rep upper 2 None]"

definition phone :: regex where
  "phone = seq [WordB, Rep ''+'' 0 (Some 1), Cls digits,
                Rep (digits @ whitespace @ ''-()'') 7 None, Cls digits, WordB]"

definition badge :: regex where
  "badge = seq [WordB, Alt (Lit ''badge'') (Alt (Lit ''warrant'') (Alt (Lit ''employee'') (Lit ''staff''))),
                Rep whitespace 0 None, Rep ''#'' 0 (Some 1), Rep whitespace 0 None,
                Rep digits 3 None, WordB]"

definition idlike :: regex where
  "idlike = seq [WordB, Rep upper 2 (Some 5), Rep digits 3 (Some 6), WordB]"

definition maskText :: "string option \<Rightarrow> string" where
  "maskText text =
     (case text of
        None \<Rightarrow> ''''
      | Some t \<Rightarrow>
          if t = '''' then ''''
          else replace False idlike ''[redacted-id]''
                 (replace True badge ''[redacted-id]''
                   (replace False phone ''[redacted-phone]''
                     (replace True email ''[redacted-email]'' t))))"


definition placeholders :: "string list" where
  "placeholders = [''[redacted-email]'', ''[redacted-phone]'', ''[redacted-id]'']"








section \<open>Structural redaction\<close>

text \<open>
  Property access by name on the complaint and on a concern, for the keys
  \<open>redactFields\<close> is called with; any other key reads as absent.
\<close>

definition rootKeys :: "string list" where
  "rootKeys = [''title'', ''institution'', ''contactPerson'', ''complaintContent'',
               ''institutionAddress'', ''institutionEmail'', ''status'', ''passwordHint'',
               ''agreedTerms'']"

definition concernKeys :: "string list" where
  "concernKeys = [''summary'', ''details'', ''decisionMaker'', ''response'']"

definition getRoot :: "string \<Rightarrow> ('cs, 's, 'hs, 'ov) complaint_rec \<Rightarrow> string option" where
  "getRoot k c =
     (if k = ''title'' then title c
      else if k = ''institution'' then institution c
      else if k = ''contactPerson'' then contactPerson c
      else if k = ''complaintContent'' then complaintContent c
      else if k = ''institutionAddress'' then institutionAddress c
      else if k = ''institutionEmail'' then institutionEmail c
      else if k = ''status'' then status c
      else if k = ''passwordHint'' then passwordHint c
      else if k = ''agreedTerms'' then agreedTerms c
      else None)"

definition setRoot ::
    "string \<Rightarrow> string option \<Rightarrow> ('cs, 's, 'hs, 'ov) complaint_rec \<Rightarrow> ('cs, 's, 'hs, 'ov) complaint_rec" where
  "setRoot k v c =
     (if k = ''title'' then c\<lparr>title := v\<rparr>
      else if k = ''institution'' then c\<lparr>institution := v\<rparr>
      else if k = ''contactPerson'' then c\<lparr>contactPerson := v\<rparr>
      else if k = ''complaintContent'' then c\<lparr>complaintContent := v\<rparr>
      else if k = ''institutionAddress'' then c\<lparr>institutionAddress := v\<rparr>
      else if k = ''institutionEmail'' then c\<lparr>institutionEmail := v\<rparr>
      else if k = ''status'' then c\<lparr>status := v\<rparr>
      else if k = ''passwordHint'' then c\<lparr>passwordHint := v\<rparr>
      else if k = ''agreedTerms'' then c\<lparr>agreedTerms := v\<rparr>
      else c)"

definition getConcern :: "string \<Rightarrow> ('s, 'ns, 'rs) concern_rec \<Rightarrow> string option" where
  "getConcern k c =
     (if k = ''summary'' then summary c
      else if k = ''details'' then details c
      else if k = ''decisionMaker'' then decisionMaker c
      else if k = ''response'' then response c
      else None)"

definition setConcern ::
    "string \<Rightarrow> string option \<Rightarrow> ('s, 'ns, 'rs) concern_rec \<Rightarrow> ('s, 'ns, 'rs) concern_rec" where
  "setConcern k v c =
     (if k = ''summary'' then c\<lparr>summary := v\<rparr>
      else if k = ''details'' then c\<lparr>details := v\<rparr>
      else if k = ''decisionMaker'' then c\<lparr>decisionMaker := v\<rparr>
      else if k = ''response'' then c\<lparr>response := v\<rparr>
      else c)"

text \<open>
  \<open>redactFields(obj, keys)\<close>: for each key in turn, a truthy (present and non-empty) value
  is replaced by its masked text.
\<close>

definition redactFields ::
    "(string \<Rightarrow> 'o \<Rightarrow> string option) \<Rightarrow> (string \<Rightarrow> string option \<Rightarrow> 'o \<Rightarrow> 'o) \<Rightarrow> 'o \<Rightarrow> string list \<Rightarrow> 'o" where
  "redactFields getProp setProp obj keys =
     foldl (\<lambda>ob k. case getProp k ob of
                      None \<Rightarrow> ob
                    | Some t \<Rightarrow> if t = '''' then ob else setProp k (Some (maskText (Some t))) ob)
       obj keys"

text \<open>\<open>x || []\<close> on an array that may be absent.\<close>

definition listOf :: "'a list option \<Rightarrow> 'a list" where
  "listOf x = (case x of None \<Rightarrow> [] | Some xs \<Rightarrow> xs)"

text \<open>\<open>complaint.redactOverrides || {}\<close>, and the flag test \<open>o[k] !== false\<close>.\<close>

definition orEmpty :: "overrides option \<Rightarrow> overrides" where
  "orEmpty x =
     (case x of
        None \<Rightarrow> \<lparr>flags = [], ov_concerns = None, safeAttachments = None\<rparr>
      | Some ov \<Rightarrow> ov)"

definition overridesOf :: "('cs, 's, 'hs, overrides option) complaint_rec \<Rightarrow> overrides" where
  "overridesOf complaint = orEmpty (redactOverrides complaint)"

definition notFalse :: "(string \<times> bool) list \<Rightarrow> string \<Rightarrow> bool" where
  "notFalse fl k = (map_of fl k \<noteq> Some False)"

text \<open>\<open>(overrides.concerns || {})[ck] || {}\<close>.\<close>

definition concernFlags :: "overrides \<Rightarrow> string \<Rightarrow> concern_flags" where
  "concernFlags overrides ck =
     (case map_of (listOf (ov_concerns overrides)) ck of None \<Rightarrow> [] | Some cov \<Rightarrow> cov)"

text \<open>The functions mapped over a concern's notes and responses.\<close>

definition redactNote :: "concern_flags \<Rightarrow> note_entry \<Rightarrow> note_entry" where
  "redactNote cov n =
     n\<lparr>n_text := (if notFalse cov ''notesText'' then Some (maskText (n_text n)) else n_text n),
       n_urls := Some (map (\<lambda>u. if notFalse cov ''notesUrls'' then maskText (Some u) else u)
                         (listOf (n_urls n)))\<rparr>"

definition redactResponse :: "concern_flags \<Rightarrow> response_entry \<Rightarrow> response_entry" where
  "redactResponse cov r =
     r\<lparr>r_decisionMaker := (if notFalse cov ''responsesDecision''
                             then Some (maskText (r_decisionMaker r)) else r_decisionMaker r),
       r_text := (if notFalse cov ''responsesText'' then Some (maskText (r_text r)) else r_text r),
       r_urls := Some (map (\<lambda>u. if notFalse cov ''responsesUrls'' then maskText (Some u) else u)
                         (listOf (r_urls r)))\<rparr>"

text \<open>The body of the \<open>forEach\<close> over the concerns of the copy; \<open>c.id || ''\<close> is the key
  under which the concern's flags are looked up.\<close>

definition concernKey :: "('s, 'ns, 'rs) concern_rec \<Rightarrow> string" where
  "concernKey c = (case concern_id c of None \<Rightarrow> '''' | Some i \<Rightarrow> i)"

definition redactConcern :: "overrides \<Rightarrow> concern \<Rightarrow> concern" where
  "redactConcern overrides c0 =
     (let ck = concernKey c0;
          cov = concernFlags overrides ck;
          c1 = redactFields getConcern setConcern c0 (filter (notFalse cov) concernKeys);
          c2 = c1\<lparr>evidence := Some (map (\<lambda>e. maskText (Some e)) (listOf (evidence c1)))\<rparr>;
          c3 = c2\<lparr>concern_notes := Some (map (redactNote cov) (listOf (concern_notes c2)))\<rparr>;
          c4 = c3\<lparr>responses := Some (map (redactResponse cov) (listOf (responses c3)))\<rparr>
      in case attachments c4 of
           None \<Rightarrow> c4
         | Some keys \<Rightarrow>
             c4\<lparr>attachments := Some (filter (\<lambda>key. key \<in> set (listOf (safeAttachments overrides))) keys)\<rparr>)"

text \<open>
  \<open>redactComplaintDeep\<close> on values. \<open>JSON.parse(JSON.stringify(complaint))\<close> yields a
  structure with the same field values; the store model below says what it does to object
  identity.
\<close>

definition redactComplaintDeep :: "complaint \<Rightarrow> complaint" where
  "redactComplaintDeep complaint =
     (let redacted = complaint;
          overrides = overridesOf complaint;
          redacted1 = redactFields getRoot setRoot redacted (filter (notFalse (flags overrides)) rootKeys)
      in case concerns redacted1 of
           None \<Rightarrow> redacted1
         | Some cs \<Rightarrow> redacted1\<lparr>concerns := Some (map (redactConcern overrides) cs)\<rparr>)"

text \<open>
  A complaint with a response, attachments, and an audit entry that quotes an e-mail address.
\<close>

definition sample_concern :: concern where
  "sample_concern =
     \<lparr> concern_id = Some ''conc_001'',
       summary = None,
       details = None,
       decisionMaker = None,
       responseDate = Some ''2025-02-01'',
       response = None,
       evidence = None,
       concern_notes = Some [\<lparr>n_text = None, n_urls = None, n_date = Some ''2025-02-02''\<rparr>],
       responses = Some [\<lparr>response_id = Some ''resp_1'', r_date = Some ''2025-02-03'',
                          r_decisionMaker = Some ''AB1234'', r_text = None,
                          r_urls = None, r_attachments = Some [''reply.pdf'']\<rparr>],
       attachments = Some [''a.pdf'', ''b.pdf'', ''c.pdf''] \<rparr>"

definition sample_complaint :: complaint where
  "sample_complaint =
     \<lparr> complaint_id = Some ''cmp_001'',
       title = Some ''AB1234'',
       dateFiled = Some ''2025-05-01'',
       complaint_type = None,
       institution = None,
       contactPerson = None,
       complaintContent = None,
       linkedSAR = None,
       concerns = Some [sample_concern],
       status = None,
       escalationPath = Some [''Filed''],
       isPasswordProtected = False,
       passwordHint = None,
       institutionAddress = None,
       institutionEmail = None,
       eventDate = None,
       refusalDate = None,
       expectedResponseFrequency = None,
       lastResponseDate = None,
       agreedTerms = None,
       breachFlag = False,
       complaint_attachments = Some [],
       history = Some [\<lparr>date = ''2025-02-01'', event = ''Note: jane@example.org'', hash = None\<rparr>],
       redactOverrides = None,
       protected = None \<rparr>"


definition sample_overrides :: overrides where
  "sample_overrides =
     \<lparr>flags = [(''title'', False)],
      ov_concerns = Some [(''conc_001'', [(''responsesDecision'', False)])],
      safeAttachments = Some [''b.pdf'']\<rparr>"


text \<open>
  A concern as the earlier version of the application creates it
  (\<open>{ id, summary, details, evidence, response, decisionMaker, responseDate }\<close>): it has no
  \<open>notes\<close>, no \<open>responses\<close> and no \<open>attachments\<close> property.
\<close>

definition legacy_concern :: concern where
  "legacy_concern =
     \<lparr> concern_id = Some ''conc_002'',
       summary = Some ''Late'',
       details = Some '''',
       decisionMaker = Some '''',
       responseDate = Some '''',
       response = Some '''',
       evidence = Some [],
       concern_notes = None,
       responses = None,
       attachments = None \<rparr>"


section \<open>The store: objects with identity\<close>

text \<open>
  To say that redaction leaves its input alone, objects and arrays get identity: a store is
  a list of cells, an address is an index into it, and the nested fields of a cell hold
  addresses. Assigning to a property of an object replaces the cell at its address;
  creating an object or an array appends a cell.
\<close>

type_synonym addr = nat

datatype cell =
    Strings "string list"
  | Objects "addr list"
  | NoteObj "addr option note_rec"
  | ResponseObj "addr option response_rec"
  | ConcernObj "(addr option, addr option, addr option) concern_rec"
  | HistoryObj history_entry
  | FlagsObj concern_flags
  | FlagsMapObj "(string \<times> addr) list"
  | OverridesObj "(addr option, addr option) overrides_rec"
  | ComplaintObj "(addr option, addr option, addr option, addr option) complaint_rec"

type_synonym store = "cell list"

text \<open>A record with its nested fields replaced (by addresses, or by the values read there).\<close>

definition noteWith :: "'a note_rec \<Rightarrow> 'b \<Rightarrow> 'b note_rec" where
  "noteWith n u = \<lparr>n_text = n_text n, n_urls = u, n_date = n_date n\<rparr>"

definition responseWith :: "'a response_rec \<Rightarrow> 'b \<Rightarrow> 'b \<Rightarrow> 'b response_rec" where
  "responseWith r u at =
     \<lparr>response_id = response_id r, r_date = r_date r, r_decisionMaker = r_decisionMaker r,
      r_text = r_text r, r_urls = u, r_attachments = at\<rparr>"

definition concernWith ::
    "('a, 'b, 'c) concern_rec \<Rightarrow> 's \<Rightarrow> 'ns \<Rightarrow> 'rs \<Rightarrow> 's \<Rightarrow> ('s, 'ns, 'rs) concern_rec" where
  "concernWith c e ns rs at =
     \<lparr>concern_id = concern_id c, summary = summary c, details = details c,
      decisionMaker = decisionMaker c, responseDate = responseDate c, response = response c,
      evidence = e, concern_notes = ns, responses = rs, attachments = at\<rparr>"

definition overridesWith :: "('a, 'b) overrides_rec \<Rightarrow> 'm \<Rightarrow> 's \<Rightarrow> ('m, 's) overrides_rec" where
  "overridesWith ov m s = \<lparr>flags = flags ov, ov_concerns = m, safeAttachments = s\<rparr>"

definition complaintWith ::
    "('a, 'b, 'c, 'd) complaint_rec \<Rightarrow> 'cs \<Rightarrow> 's \<Rightarrow> 's \<Rightarrow> 'hs \<Rightarrow> 'ov \<Rightarrow> ('cs, 's, 'hs, 'ov) complaint_rec" where
  "complaintWith c cs ep at hs ov =
     \<lparr>complaint_id = complaint_id c, title = title c, dateFiled = dateFiled c,
      complaint_type = complaint_type c, institution = institution c,
      contactPerson = contactPerson c, complaintContent = complaintContent c,
      linkedSAR = linkedSAR c, concerns = cs, status = status c, escalationPath = ep,
      isPasswordProtected = isPasswordProtected c, passwordHint = passwordHint c,
      institutionAddress = institutionAddress c, institutionEmail = institutionEmail c,
      eventDate = eventDate c, refusalDate = refusalDate c,
      expectedResponseFrequency = expectedResponseFrequency c,
      lastResponseDate = lastResponseDate c, agreedTerms = agreedTerms c,
      breachFlag = breachFlag c, complaint_attachments = at, history = hs,
      redactOverrides = ov, protected = protected c\<rparr>"

subsection \<open>Reading a structure out of the store\<close>

text \<open>
  \<open>read\<dots> lo h a\<close> is the value of the structure at address \<open>a\<close>, provided every cell it
  consists of lies at an address from \<open>lo\<close> on and has the expected shape. With \<open>lo = 0\<close> this
  is what \<open>JSON.stringify\<close> serialises.
\<close>

definition cellAt :: "nat \<Rightarrow> store \<Rightarrow> addr \<Rightarrow> cell option" where
  "cellAt lo h a = (if lo \<le> a \<and> a < length h then Some (h ! a) else None)"

fun mapM :: "('a \<Rightarrow> 'b option) \<Rightarrow> 'a list \<Rightarrow> 'b list option" where
  "mapM f [] = Some []"
| "mapM f (x # xs) =
     (case f x of None \<Rightarrow> None
      | Some y \<Rightarrow> (case mapM f xs of None \<Rightarrow> None | Some ys \<Rightarrow> Some (y # ys)))"

definition stringsAt :: "nat \<Rightarrow> store \<Rightarrow> addr \<Rightarrow> string list option" where
  "stringsAt lo h a = (case cellAt lo h a of Some (Strings xs) \<Rightarrow> Some xs | _ \<Rightarrow> None)"

definition objectsAt :: "nat \<Rightarrow> store \<Rightarrow> addr \<Rightarrow> addr list option" where
  "objectsAt lo h a = (case cellAt lo h a of Some (Objects as) \<Rightarrow> Some as | _ \<Rightarrow> None)"

definition noteAt :: "nat \<Rightarrow> store \<Rightarrow> addr \<Rightarrow> addr option note_rec option" where
  "noteAt lo h a = (case cellAt lo h a of Some (NoteObj n) \<Rightarrow> Some n | _ \<Rightarrow> None)"

definition responseAt :: "nat \<Rightarrow> store \<Rightarrow> addr \<Rightarrow> addr option response_rec option" where
  "responseAt lo h a = (case cellAt lo h a of Some (ResponseObj r) \<Rightarrow> Some r | _ \<Rightarrow> None)"

definition concernAt ::
    "nat \<Rightarrow> store \<Rightarrow> addr \<Rightarrow> (addr option, addr option, addr option) concern_rec option" where
  "concernAt lo h a = (case cellAt lo h a of Some (ConcernObj c) \<Rightarrow> Some c | _ \<Rightarrow> None)"

definition flagsMapAt :: "nat \<Rightarrow> store \<Rightarrow> addr \<Rightarrow> (string \<times> addr) list option" where
  "flagsMapAt lo h a = (case cellAt lo h a of Some (FlagsMapObj m) \<Rightarrow> Some m | _ \<Rightarrow> None)"

definition overridesAt :: "nat \<Rightarrow> store \<Rightarrow> addr \<Rightarrow> (addr option, addr option) overrides_rec option" where
  "overridesAt lo h a = (case cellAt lo h a of Some (OverridesObj ov) \<Rightarrow> Some ov | _ \<Rightarrow> None)"

definition complaintAt ::
    "nat \<Rightarrow> store \<Rightarrow> addr \<Rightarrow> (addr option, addr option, addr option, addr option) complaint_rec option" where
  "complaintAt lo h a = (case cellAt lo h a of Some (ComplaintObj c) \<Rightarrow> Some c | _ \<Rightarrow> None)"

definition readStrings :: "nat \<Rightarrow> store \<Rightarrow> addr option \<Rightarrow> string list option option" where
  "readStrings lo h x = (case x of None \<Rightarrow> Some None | Some a \<Rightarrow> map_option Some (stringsAt lo h a))"

definition readArray ::
    "(nat \<Rightarrow> store \<Rightarrow> addr \<Rightarrow> 'v option) \<Rightarrow> nat \<Rightarrow> store \<Rightarrow> addr option \<Rightarrow> 'v list option option" where
  "readArray rd lo h x =
     (case x of
        None \<Rightarrow> Some None
      | Some a \<Rightarrow> (case objectsAt lo h a of
                     None \<Rightarrow> None
                   | Some as \<Rightarrow> map_option Some (mapM (rd lo h) as)))"

definition readNote :: "nat \<Rightarrow> store \<Rightarrow> addr \<Rightarrow> note_entry option" where
  "readNote lo h a =
     (case noteAt lo h a of
        None \<Rightarrow> None
      | Some n \<Rightarrow> map_option (noteWith n) (readStrings lo h (n_urls n)))"

definition readResponse :: "nat \<Rightarrow> store \<Rightarrow> addr \<Rightarrow> response_entry option" where
  "readResponse lo h a =
     (case responseAt lo h a of
        None \<Rightarrow> None
      | Some r \<Rightarrow>
          (case readStrings lo h (r_urls r) of
             None \<Rightarrow> None
           | Some u \<Rightarrow> map_option (responseWith r u) (readStrings lo h (r_attachments r))))"

definition readConcern :: "nat \<Rightarrow> store \<Rightarrow> addr \<Rightarrow> concern option" where
  "readConcern lo h a =
     (case concernAt lo h a of
        None \<Rightarrow> None
      | Some c \<Rightarrow>
          (case readStrings lo h (evidence c) of
             None \<Rightarrow> None
           | Some e \<Rightarrow>
          (case readArray readNote lo h (concern_notes c) of
             None \<Rightarrow> None
           | Some ns \<Rightarrow>
          (case readArray readResponse lo h (responses c) of
             None \<Rightarrow> None
           | Some rs \<Rightarrow> map_option (concernWith c e ns rs) (readStrings lo h (attachments c))))))"

definition readHistoryEntry :: "nat \<Rightarrow> store \<Rightarrow> addr \<Rightarrow> history_entry option" where
  "readHistoryEntry lo h a = (case cellAt lo h a of Some (HistoryObj e) \<Rightarrow> Some e | _ \<Rightarrow> None)"

definition readFlagsEntry :: "nat \<Rightarrow> store \<Rightarrow> string \<times> addr \<Rightarrow> (string \<times> concern_flags) option" where
  "readFlagsEntry lo h ka =
     (case cellAt lo h (snd ka) of Some (FlagsObj f) \<Rightarrow> Some (fst ka, f) | _ \<Rightarrow> None)"

definition readFlagsMap :: "nat \<Rightarrow> store \<Rightarrow> addr option \<Rightarrow> (string \<times> concern_flags) list option option" where
  "readFlagsMap lo h x =
     (case x of
        None \<Rightarrow> Some None
      | Some a \<Rightarrow> (case flagsMapAt lo h a of
                     None \<Rightarrow> None
                   | Some m \<Rightarrow> map_option Some (mapM (readFlagsEntry lo h) m)))"

definition readOverrides :: "nat \<Rightarrow> store \<Rightarrow> addr option \<Rightarrow> overrides option option" where
  "readOverrides lo h x =
     (case x of
        None \<Rightarrow> Some None
      | Some a \<Rightarrow> (case overridesAt lo h a of
                     None \<Rightarrow> None
                   | Some ov \<Rightarrow>
                       (case readFlagsMap lo h (ov_concerns ov) of
                          None \<Rightarrow> None
                        | Some m \<Rightarrow> map_option (\<lambda>s. Some (overridesWith ov m s))
                                     (readStrings lo h (safeAttachments ov)))))"

definition readComplaint :: "nat \<Rightarrow> store \<Rightarrow> addr \<Rightarrow> complaint option" where
  "readComplaint lo h a =
     (case complaintAt lo h a of
        None \<Rightarrow> None
      | Some c \<Rightarrow>
          (case readArray readConcern lo h (concerns c) of
             None \<Rightarrow> None
           | Some cs \<Rightarrow>
          (case readStrings lo h (escalationPath c) of
             None \<Rightarrow> None
           | Some ep \<Rightarrow>
          (case readStrings lo h (complaint_attachments c) of
             None \<Rightarrow> None
           | Some at \<Rightarrow>
          (case readArray readHistoryEntry lo h (history c) of
             None \<Rightarrow> None
           | Some hs \<Rightarrow> map_option (complaintWith c cs ep at hs) (readOverrides lo h (redactOverrides c)))))))"

subsection \<open>Building a structure in the store\<close>

text \<open>\<open>JSON.parse\<close> builds every object and array of the text anew.\<close>

definition alloc :: "cell \<Rightarrow> store \<Rightarrow> addr \<times> store" where
  "alloc c h = (length h, h @ [c])"

fun allocList :: "('v \<Rightarrow> store \<Rightarrow> 'r \<times> store) \<Rightarrow> 'v list \<Rightarrow> store \<Rightarrow> 'r list \<times> store" where
  "allocList f [] h = ([], h)"
| "allocList f (v # vs) h =
     (let (a, h1) = f v h; (as, h2) = allocList f vs h1 in (a # as, h2))"

definition allocStrings :: "string list option \<Rightarrow> store \<Rightarrow> addr option \<times> store" where
  "allocStrings x h =
     (case x of None \<Rightarrow> (None, h)
      | Some xs \<Rightarrow> (let (a, h1) = alloc (Strings xs) h in (Some a, h1)))"

definition allocArray :: "('v \<Rightarrow> store \<Rightarrow> addr \<times> store) \<Rightarrow> 'v list option \<Rightarrow> store \<Rightarrow> addr option \<times> store" where
  "allocArray f x h =
     (case x of None \<Rightarrow> (None, h)
      | Some vs \<Rightarrow> (let (as, h1) = allocList f vs h; (a, h2) = alloc (Objects as) h1 in (Some a, h2)))"

definition allocNote :: "note_entry \<Rightarrow> store \<Rightarrow> addr \<times> store" where
  "allocNote n h = (let (u, h1) = allocStrings (n_urls n) h in alloc (NoteObj (noteWith n u)) h1)"

definition allocResponse :: "response_entry \<Rightarrow> store \<Rightarrow> addr \<times> store" where
  "allocResponse r h =
     (let (u, h1) = allocStrings (r_urls r) h;
          (at, h2) = allocStrings (r_attachments r) h1
      in alloc (ResponseObj (responseWith r u at)) h2)"

definition allocConcern :: "concern \<Rightarrow> store \<Rightarrow> addr \<times> store" where
  "allocConcern c h =
     (let (e, h1) = allocStrings (evidence c) h;
          (ns, h2) = allocArray allocNote (concern_notes c) h1;
          (rs, h3) = allocArray allocResponse (responses c) h2;
          (at, h4) = allocStrings (attachments c) h3
      in alloc (ConcernObj (concernWith c e ns rs at)) h4)"

definition allocHistoryEntry :: "history_entry \<Rightarrow> store \<Rightarrow> addr \<times> store" where
  "allocHistoryEntry e h = alloc (HistoryObj e) h"

definition allocFlagsEntry :: "string \<times> concern_flags \<Rightarrow> store \<Rightarrow> (string \<times> addr) \<times> store" where
  "allocFlagsEntry kf h = (let (a, h1) = alloc (FlagsObj (snd kf)) h in ((fst kf, a), h1))"

definition allocFlagsMap :: "(string \<times> concern_flags) list option \<Rightarrow> store \<Rightarrow> addr option \<times> store" where
  "allocFlagsMap x h =
     (case x of None \<Rightarrow> (None, h)
      | Some m \<Rightarrow> (let (ents, h1) = allocList allocFlagsEntry m h;
                       (a, h2) = alloc (FlagsMapObj ents) h1
                   in (Some a, h2)))"

definition allocOverrides :: "overrides option \<Rightarrow> store \<Rightarrow> addr option \<times> store" where
  "allocOverrides x h =
     (case x of None \<Rightarrow> (None, h)
      | Some ov \<Rightarrow> (let (m, h1) = allocFlagsMap (ov_concerns ov) h;
                        (s, h2) = allocStrings (safeAttachments ov) h1;
                        (a, h3) = alloc (OverridesObj (overridesWith ov m s)) h2
                    in (Some a, h3)))"

definition allocComplaint :: "complaint \<Rightarrow> store \<Rightarrow> addr \<times> store" where
  "allocComplaint c h =
     (let (cs, h1) = allocArray allocConcern (concerns c) h;
          (ep, h2) = allocStrings (escalationPath c) h1;
          (at, h3) = allocStrings (complaint_attachments c) h2;
          (hs, h4) = allocArray allocHistoryEntry (history c) h3;
          (ov, h5) = allocOverrides (redactOverrides c) h4
      in alloc (ComplaintObj (complaintWith c cs ep at hs ov)) h5)"

subsection \<open>Redaction in the store\<close>

text \<open>
  \<open>Array.prototype.map\<close> with a callback that builds a new object for each element, and
  \<open>forEach\<close> with a callback that assigns to the element's properties.
\<close>

fun mapStore :: "(store \<Rightarrow> addr \<Rightarrow> (addr \<times> store) option) \<Rightarrow> addr list \<Rightarrow> store \<Rightarrow> (addr list \<times> store) option" where
  "mapStore f [] h = Some ([], h)"
| "mapStore f (a # as) h =
     (case f h a of
        None \<Rightarrow> None
      | Some (b, h1) \<Rightarrow> (case mapStore f as h1 of None \<Rightarrow> None | Some (bs, h2) \<Rightarrow> Some (b # bs, h2)))"

fun forEachStore :: "(store \<Rightarrow> addr \<Rightarrow> store option) \<Rightarrow> addr list \<Rightarrow> store \<Rightarrow> store option" where
  "forEachStore f [] h = Some h"
| "forEachStore f (a # as) h = (case f h a of None \<Rightarrow> None | Some h1 \<Rightarrow> forEachStore f as h1)"

text \<open>\<open>x || []\<close> on a property holding an array of objects.\<close>

definition objectsOr :: "store \<Rightarrow> addr option \<Rightarrow> addr list option" where
  "objectsOr h x = (case x of None \<Rightarrow> Some [] | Some a \<Rightarrow> objectsAt 0 h a)"

text \<open>The callback \<open>n => ({ ...n, text: \<dots>, urls: (n.urls||[]).map(\<dots>) })\<close>.\<close>

definition redactNote_store :: "concern_flags \<Rightarrow> store \<Rightarrow> addr \<Rightarrow> (addr \<times> store) option" where
  "redactNote_store cov h a =
     (case noteAt 0 h a of
        None \<Rightarrow> None
      | Some n \<Rightarrow>
          (case readStrings 0 h (n_urls n) of
             None \<Rightarrow> None
           | Some urls \<Rightarrow>
               (let (u, h1) = alloc (Strings (map (\<lambda>u. if notFalse cov ''notesUrls'' then maskText (Some u) else u)
                                                 (listOf urls))) h
                in Some (alloc (NoteObj (n\<lparr>n_text := (if notFalse cov ''notesText''
                                                        then Some (maskText (n_text n)) else n_text n),
                                             n_urls := Some u\<rparr>)) h1))))"

text \<open>The callback \<open>r => ({ ...r, decisionMaker: \<dots>, text: \<dots>, urls: (r.urls||[]).map(\<dots>) })\<close>.\<close>

definition redactResponse_store :: "concern_flags \<Rightarrow> store \<Rightarrow> addr \<Rightarrow> (addr \<times> store) option" where
  "redactResponse_store cov h a =
     (case responseAt 0 h a of
        None \<Rightarrow> None
      | Some r \<Rightarrow>
          (case readStrings 0 h (r_urls r) of
             None \<Rightarrow> None
           | Some urls \<Rightarrow>
               (let (u, h1) = alloc (Strings (map (\<lambda>u. if notFalse cov ''responsesUrls'' then maskText (Some u) else u)
                                                 (listOf urls))) h
                in Some (alloc (ResponseObj
                     (r\<lparr>r_decisionMaker := (if notFalse cov ''responsesDecision''
                                              then Some (maskText (r_decisionMaker r)) else r_decisionMaker r),
                        r_text := (if notFalse cov ''responsesText'' then Some (maskText (r_text r)) else r_text r),
                        r_urls := Some u\<rparr>)) h1))))"

text \<open>
  Assignments to properties of the concern held in \<open>c\<close>: the cell at its address is read
  and written back with the properties changed.
\<close>

definition assignConcern ::
    "store \<Rightarrow> addr
      \<Rightarrow> ((addr option, addr option, addr option) concern_rec \<Rightarrow> (addr option, addr option, addr option) concern_rec)
      \<Rightarrow> store option" where
  "assignConcern h ca upd = (case concernAt 0 h ca of None \<Rightarrow> None | Some c \<Rightarrow> Some (h[ca := ConcernObj (upd c)]))"

text \<open>\<open>redactFields(c, [\<dots>].filter(k => cov[k] !== false))\<close>.\<close>

definition redactConcernFields :: "concern_flags \<Rightarrow> store \<Rightarrow> addr \<Rightarrow> store option" where
  "redactConcernFields cov h ca =
     assignConcern h ca (\<lambda>c. redactFields getConcern setConcern c (filter (notFalse cov) concernKeys))"

text \<open>\<open>c.evidence = (c.evidence||[]).map(e => maskText(e))\<close>.\<close>

definition assignEvidence :: "store \<Rightarrow> addr \<Rightarrow> store option" where
  "assignEvidence h ca =
     (case concernAt 0 h ca of None \<Rightarrow> None | Some c \<Rightarrow>
      case readStrings 0 h (evidence c) of None \<Rightarrow> None | Some ev \<Rightarrow>
        (let (e, h1) = alloc (Strings (map (\<lambda>e. maskText (Some e)) (listOf ev))) h
         in assignConcern h1 ca (\<lambda>c. c\<lparr>evidence := Some e\<rparr>)))"

text \<open>\<open>c.notes = (c.notes||[]).map(\<dots>)\<close> and \<open>c.responses = (c.responses||[]).map(\<dots>)\<close>.\<close>

definition assignNotes :: "concern_flags \<Rightarrow> store \<Rightarrow> addr \<Rightarrow> store option" where
  "assignNotes cov h ca =
     (case concernAt 0 h ca of None \<Rightarrow> None | Some c \<Rightarrow>
      case objectsOr h (concern_notes c) of None \<Rightarrow> None | Some ns \<Rightarrow>
      case mapStore (redactNote_store cov) ns h of None \<Rightarrow> None | Some (ns', h1) \<Rightarrow>
        (let (na, h2) = alloc (Objects ns') h1
         in assignConcern h2 ca (\<lambda>c. c\<lparr>concern_notes := Some na\<rparr>)))"

definition assignResponses :: "concern_flags \<Rightarrow> store \<Rightarrow> addr \<Rightarrow> store option" where
  "assignResponses cov h ca =
     (case concernAt 0 h ca of None \<Rightarrow> None | Some c \<Rightarrow>
      case objectsOr h (responses c) of None \<Rightarrow> None | Some rs \<Rightarrow>
      case mapStore (redactResponse_store cov) rs h of None \<Rightarrow> None | Some (rs', h1) \<Rightarrow>
        (let (ra, h2) = alloc (Objects rs') h1
         in assignConcern h2 ca (\<lambda>c. c\<lparr>responses := Some ra\<rparr>)))"

text \<open>\<open>if (Array.isArray(c.attachments)) c.attachments = c.attachments.filter(\<dots>)\<close>.\<close>

definition filterAttachments :: "overrides \<Rightarrow> store \<Rightarrow> addr \<Rightarrow> store option" where
  "filterAttachments overrides h ca =
     (case concernAt 0 h ca of None \<Rightarrow> None | Some c \<Rightarrow>
      case attachments c of
        None \<Rightarrow> Some h
      | Some aa \<Rightarrow>
          (case stringsAt 0 h aa of None \<Rightarrow> None | Some keys \<Rightarrow>
             (let (fa, h1) = alloc (Strings (filter (\<lambda>key. key \<in> set (listOf (safeAttachments overrides))) keys)) h
              in assignConcern h1 ca (\<lambda>c. c\<lparr>attachments := Some fa\<rparr>))))"

text \<open>
  The body of the \<open>forEach\<close> over the concerns of the copy: \<open>ca\<close> is the address of the
  concern \<open>c\<close>, \<open>ovaddr\<close> the value of \<open>complaint.redactOverrides\<close> on the original, through
  which the overrides are read.
\<close>

definition redactConcern_store :: "addr option \<Rightarrow> store \<Rightarrow> addr \<Rightarrow> store option" where
  "redactConcern_store ovaddr h ca =
     (case concernAt 0 h ca of None \<Rightarrow> None | Some c \<Rightarrow>
      case readOverrides 0 h ovaddr of None \<Rightarrow> None | Some ov \<Rightarrow>
        (let overrides = orEmpty ov;
             cov = concernFlags overrides (concernKey c)
         in case redactConcernFields cov h ca of None \<Rightarrow> None | Some h1 \<Rightarrow>
            case assignEvidence h1 ca of None \<Rightarrow> None | Some h2 \<Rightarrow>
            case assignNotes cov h2 ca of None \<Rightarrow> None | Some h3 \<Rightarrow>
            case assignResponses cov h3 ca of None \<Rightarrow> None | Some h4 \<Rightarrow>
              filterAttachments overrides h4 ca))"

text \<open>
  \<open>redactComplaintDeep\<close> in the store: serialise the complaint at address \<open>complaint\<close>, build
  the copy, read the overrides through the original, assign the masked root fields to the
  copy, run the loop over the copy's concerns, and return the copy's address.
\<close>

definition redactComplaintDeep_store :: "store \<Rightarrow> addr \<Rightarrow> (addr \<times> store) option" where
  "redactComplaintDeep_store h complaint =
     (case readComplaint 0 h complaint of None \<Rightarrow> None | Some json \<Rightarrow>
     (let (redacted, h1) = allocComplaint json h
      in case complaintAt 0 h1 complaint of None \<Rightarrow> None | Some c \<Rightarrow>
         case readOverrides 0 h1 (redactOverrides c) of None \<Rightarrow> None | Some ov \<Rightarrow>
         case complaintAt 0 h1 redacted of None \<Rightarrow> None | Some r0 \<Rightarrow>
           (let r1 = redactFields getRoot setRoot r0 (filter (notFalse (flags (orEmpty ov))) rootKeys);
                h2 = h1[redacted := ComplaintObj r1]
            in case objectsOr h2 (concerns r1) of None \<Rightarrow> None | Some cs \<Rightarrow>
               case forEachStore (redactConcern_store (redactOverrides c)) cs h2 of
                 None \<Rightarrow> None
               | Some h3 \<Rightarrow> Some (redacted, h3))))"

text \<open>The sample complaint with its overrides, built in an empty store.\<close>

definition sample_store :: "addr \<times> store" where
  "sample_store = allocComplaint (sample_complaint\<lparr>redactOverrides := Some sample_overrides\<rparr>) []"

text \<open>
  \<open>evolves h h'\<close>: \<open>h'\<close> comes from \<open>h\<close> by creating cells and by assigning to properties of
  concern and complaint objects, the only objects the function assigns to.
\<close>

definition isConcern :: "cell \<Rightarrow> bool" where
  "isConcern c = (case c of ConcernObj k \<Rightarrow> True | _ \<Rightarrow> False)"

definition isComplaint :: "cell \<Rightarrow> bool" where
  "isComplaint c = (case c of ComplaintObj k \<Rightarrow> True | _ \<Rightarrow> False)"

definition assignable :: "cell \<Rightarrow> cell \<Rightarrow> bool" where
  "assignable c c' = (c' = c \<or> isConcern c \<and> isConcern c' \<or> isComplaint c \<and> isComplaint c')"

definition evolves :: "store \<Rightarrow> store \<Rightarrow> bool" where
  "evolves h h' = (length h \<le> length h' \<and> (\<forall>x < length h. assignable (h ! x) (h' ! x)))"

text \<open>
  \<open>builds f rd\<close>: \<open>f v\<close> extends the store, leaving what was there, by a structure at a new
  address which \<open>rd\<close> reads back as \<open>v\<close> and which lies wholly in the new part;
  \<open>buildsOpt\<close> is the same for a property that may be absent.
\<close>

definition builds :: "('v \<Rightarrow> store \<Rightarrow> addr \<times> store) \<Rightarrow> (nat \<Rightarrow> store \<Rightarrow> addr \<Rightarrow> 'v option) \<Rightarrow> bool" where
  "builds f rd =
     (\<forall>v h a h'. f v h = (a, h') \<longrightarrow>
        take (length h) h' = h \<and> length h \<le> a \<and> a < length h' \<and>
        (\<forall>lo \<le> length h. rd lo h' a = Some v))"

definition buildsOpt ::
    "('v option \<Rightarrow> store \<Rightarrow> addr option \<times> store) \<Rightarrow> (nat \<Rightarrow> store \<Rightarrow> addr option \<Rightarrow> 'v option option) \<Rightarrow> bool" where
  "buildsOpt f rd =
     (\<forall>v h x h'. f v h = (x, h') \<longrightarrow>
        take (length h) h' = h \<and> (\<forall>lo \<le> length h. rd lo h' x = Some v))"


text \<open>A reader is stable when a value it reads is still read after the store has grown.\<close>

definition stable :: "(nat \<Rightarrow> store \<Rightarrow> addr \<Rightarrow> 'v option) \<Rightarrow> bool" where
  "stable rd = (\<forall>lo h h' a w. rd lo h a = Some w \<longrightarrow> take (length h) h' = h \<longrightarrow> rd lo h' a = Some w)"

text \<open>
  Between two stores, only cells with an address in \<open>S\<close> were assigned: the store evolved,
  and every other cell that existed is the same.
\<close>

definition assigns :: "addr set \<Rightarrow> store \<Rightarrow> store \<Rightarrow> bool" where
  "assigns S h h' = (evolves h h' \<and> (\<forall>x<length h. x \<notin> S \<longrightarrow> h' ! x = h ! x))"
section \<open>Properties of the digest rendering\<close>

lemma unat_of_nat_byte: "n < 256 \<Longrightarrow> unat (of_nat n :: byte) = n"
  by (simp add: unat_of_nat take_bit_nat_eq_self)

lemma of_char_lt_256: "(of_char c :: nat) < 256"
  by (cases c) (simp add: of_char_def horner_sum_eq_sum)

lemma hexDigit_inj: "a < 16 \<Longrightarrow> b < 16 \<Longrightarrow> hexDigit a = hexDigit b \<Longrightarrow> a = b"
proof -
  assume a: "a < 16" and b: "b < 16" and e: "hexDigit a = hexDigit b"
  have d: "distinct ''0123456789abcdef''" by simp
  have l: "length ''0123456789abcdef'' = 16" by simp
  from e have "''0123456789abcdef'' ! a = ''0123456789abcdef'' ! b" by (simp only: hexDigit_def)
  with d a b l show "a = b" by (metis nth_eq_iff_index_eq)
qed

lemma hexDigit_mem: "n < 16 \<Longrightarrow> hexDigit n \<in> set ''0123456789abcdef''"
  unfolding hexDigit_def by (rule nth_mem) simp

lemma hex_byte: "n < 256 \<Longrightarrow> padStart 2 (CHR ''0'') (toString16 n) = [hexDigit (n div 16), hexDigit (n mod 16)]"
proof (cases "n < 16")
  case True
  then show ?thesis by (simp add: toString16.simps [of n] padStart_def hexDigit_def)
next
  case False
  assume "n < 256"
  then have "n div 16 < 16" by simp
  with False show ?thesis
    by (simp add: toString16.simps [of n] toString16.simps [of "n div 16"] padStart_def)
qed

lemma hex_pair_inj:
  assumes "a < 256" "b < 256"
    and "[hexDigit (a div 16), hexDigit (a mod 16)] = [hexDigit (b div 16), hexDigit (b mod 16)]"
  shows "a = b"
proof -
  have "a div 16 < 16" "b div 16 < 16" "a mod 16 < 16" "b mod 16 < 16" using assms by simp_all
  with assms(3) have "a div 16 = b div 16" "a mod 16 = b mod 16"
    using hexDigit_inj [of "a div 16" "b div 16"] hexDigit_inj [of "a mod 16" "b mod 16"] by simp_all
  then show ?thesis by (metis div_mult_mod_eq)
qed

lemma unat_byte_lt: "unat (b :: byte) < 256"
  using unsigned_less [of b, where ?'a = nat] by simp

lemma render_inj:
  "concat (map (\<lambda>b. padStart 2 (CHR ''0'') (toString16 (unat b))) xs)
     = concat (map (\<lambda>b. padStart 2 (CHR ''0'') (toString16 (unat b))) ys) \<Longrightarrow> xs = (ys :: byte list)"
proof (induction xs arbitrary: ys)
  case Nil
  then show ?case by (cases ys) (simp_all add: hex_byte unat_byte_lt)
next
  case (Cons x xs)
  show ?case
  proof (cases ys)
    case Nil
    with Cons.prems show ?thesis by (simp add: hex_byte unat_byte_lt)
  next
    case (Cons y ys')
    with Cons.prems have h: "hexDigit (unat x div 16) = hexDigit (unat y div 16)"
      "hexDigit (unat x mod 16) = hexDigit (unat y mod 16)"
      and t: "concat (map (\<lambda>b. padStart 2 (CHR ''0'') (toString16 (unat b))) xs)
     = concat (map (\<lambda>b. padStart 2 (CHR ''0'') (toString16 (unat b))) ys')"
      by (simp_all add: hex_byte unat_byte_lt)
    from h have "unat x = unat y" using hex_pair_inj [of "unat x" "unat y"] by (simp add: unat_byte_lt)
    then have "x = y" by (simp add: word_unat_eq_iff)
    with Cons.IH [OF t] Cons show ?thesis by simp
  qed
qed

lemma utf8_small: "(of_char c :: nat) < 128 \<Longrightarrow> utf8_unit c = [of_nat (of_char c)]"
  by (simp add: utf8_unit_def)

lemma utf8_large:
  "\<not> (of_char c :: nat) < 128 \<Longrightarrow>
     utf8_unit c = [of_nat (192 + of_char c div 64), of_nat (128 + of_char c mod 64)]"
  by (simp add: utf8_unit_def Let_def)

lemma of_nat_byte_inj: "(of_nat a :: byte) = of_nat b \<Longrightarrow> a < 256 \<Longrightarrow> b < 256 \<Longrightarrow> a = b"
proof -
  assume e: "(of_nat a :: byte) = of_nat b" and a: "a < 256" and b: "b < 256"
  have "a = unat (of_nat a :: byte)" using a by (simp only: unat_of_nat_byte)
  also have "\<dots> = unat (of_nat b :: byte)" by (simp only: e)
  also have "\<dots> = b" using b by (simp only: unat_of_nat_byte)
  finally show "a = b" .
qed

lemma utf8_unit_cons_inj:
  assumes "utf8_unit c @ r = utf8_unit d @ r'"
  shows "c = d \<and> r = r'"
proof -
  let ?m = "of_char c :: nat" and ?n = "of_char d :: nat"
  have m: "?m < 256" and n: "?n < 256" by (rule of_char_lt_256)+
  have hi: "192 + ?m div 64 < 256" "192 + ?n div 64 < 256" using m n by arith+
  have lo: "128 + ?m mod 64 < 256" "128 + ?n mod 64 < 256" by arith+
  have eq: "?m = ?n \<and> r = r'"
  proof (cases "?m < 128")
    case cs: True
    show ?thesis
    proof (cases "?n < 128")
      case True
      from assms have "(of_nat ?m :: byte) = of_nat ?n" "r = r'"
        by (simp_all only: utf8_small [OF cs] utf8_small [OF True] append_Cons append_Nil list.inject)
      with m n show ?thesis by (simp only: of_nat_byte_inj)
    next
      case False
      from assms have "(of_nat ?m :: byte) = of_nat (192 + ?n div 64)"
        by (simp only: utf8_small [OF cs] utf8_large [OF False] append_Cons append_Nil list.inject)
      then have "?m = 192 + ?n div 64" using m hi(2) by (rule of_nat_byte_inj)
      with cs show ?thesis by simp
    qed
  next
    case cl: False
    show ?thesis
    proof (cases "?n < 128")
      case True
      from assms have "(of_nat (192 + ?m div 64) :: byte) = of_nat ?n"
        by (simp only: utf8_small [OF True] utf8_large [OF cl] append_Cons append_Nil list.inject)
      then have "192 + ?m div 64 = ?n" using hi(1) n by (rule of_nat_byte_inj)
      with True show ?thesis by simp
    next
      case False
      from assms have a: "(of_nat (192 + ?m div 64) :: byte) = of_nat (192 + ?n div 64)"
        and b: "(of_nat (128 + ?m mod 64) :: byte) = of_nat (128 + ?n mod 64)" and r: "r = r'"
        by (simp_all only: utf8_large [OF cl] utf8_large [OF False] append_Cons append_Nil list.inject)
      from a have "192 + ?m div 64 = 192 + ?n div 64" using hi by (rule of_nat_byte_inj)
      moreover from b have "128 + ?m mod 64 = 128 + ?n mod 64" using lo by (rule of_nat_byte_inj)
      ultimately have "?m div 64 = ?n div 64" "?m mod 64 = ?n mod 64" by simp_all
      then have "?m = ?n" by (metis div_mult_mod_eq)
      with r show ?thesis by simp
    qed
  qed
  then show ?thesis by simp
qed

lemma utf8_unit_nonempty: "utf8_unit c \<noteq> []"
  by (cases "(of_char c :: nat) < 128") (simp_all add: utf8_small utf8_large)

lemma encode_Cons: "encode (c # s) = utf8_unit c @ encode s"
  by (simp add: encode_def)

lemma encode_Nil: "encode [] = []"
  by (simp add: encode_def)

lemma encode_inj: "encode s = encode t \<Longrightarrow> s = t"
proof (induction s arbitrary: t)
  case Nil
  then show ?case by (cases t) (simp_all add: encode_Cons encode_Nil utf8_unit_nonempty)
next
  case (Cons c s)
  show ?case
  proof (cases t)
    case Nil
    with Cons.prems show ?thesis by (simp add: encode_Cons encode_Nil utf8_unit_nonempty)
  next
    case (Cons d t')
    with Cons.prems have "utf8_unit c @ encode s = utf8_unit d @ encode t'" by (simp add: encode_Cons)
    then have "c = d \<and> encode s = encode t'" by (rule utf8_unit_cons_inj)
    with Cons.IH Cons show ?thesis by simp
  qed
qed

lemma sha256Hex_inj: "inj digest \<Longrightarrow> sha256Hex digest s = sha256Hex digest t \<Longrightarrow> s = t"
  unfolding sha256Hex_def by (blast dest: render_inj injD encode_inj)

lemma hex_byte_chars: "set (padStart 2 (CHR ''0'') (toString16 (unat (b :: byte)))) \<subseteq> set ''0123456789abcdef''"
proof -
  have "unat b div 16 < 16" using unat_byte_lt [of b] by arith
  then have "hexDigit (unat b div 16) \<in> set ''0123456789abcdef''"
    and "hexDigit (unat b mod 16) \<in> set ''0123456789abcdef''"
    by (simp_all only: hexDigit_mem mod_less_divisor zero_less_numeral)
  then show ?thesis by (simp only: hex_byte [OF unat_byte_lt] list.set insert_subset empty_subsetI simp_thms)
qed

lemma sha256Hex_chars: "set (sha256Hex digest s) \<subseteq> set ''0123456789abcdef''"
proof
  fix c assume "c \<in> set (sha256Hex digest s)"
  then obtain b where "c \<in> set (padStart 2 (CHR ''0'') (toString16 (unat (b :: byte))))"
    unfolding sha256Hex_def set_concat by auto
  with hex_byte_chars [of b] show "c \<in> set ''0123456789abcdef''" by blast
qed

lemma sha256Hex_length: "length (sha256Hex digest s) = 2 * length (digest (encode s))"
  unfolding sha256Hex_def
  by (induction "digest (encode s)") (simp_all add: hex_byte unat_byte_lt length_concat comp_def sum_list_triv)

section \<open>Properties of the audit chain\<close>

lemma verify_loop_append:
  "verifyHistoryChain_loop digest prev (xs @ h # ys) =
     (verifyHistoryChain_loop digest prev xs \<and>
      hash h = Some (sha256Hex digest (lastHash prev xs @ ''|'' @ date h @ ''|'' @ event h)) \<and>
      verifyHistoryChain_loop digest (sha256Hex digest (lastHash prev xs @ ''|'' @ date h @ ''|'' @ event h)) ys)"
proof (induction xs arbitrary: prev)
  case Nil
  show ?case by (auto simp: lastHash_def split: option.splits)
next
  case (Cons x xs)
  have l: "hash x = Some s \<Longrightarrow> lastHash prev (x # xs) = lastHash s xs" for s
    by (cases xs) (simp_all add: lastHash_def)
  show ?case by (auto simp: Cons.IH l Let_def split: option.splits)
qed

lemma appendHistory_alt:
  "appendHistory digest now c e = appendHistory_resume c (appendHistory_call digest now c e)"
  by (simp add: appendHistory_def run_def)

lemma prevHash_lastHash:
  "(case history c of None \<Rightarrow> '''' | Some [] \<Rightarrow> ''''
    | Some (x # xs) \<Rightarrow> (case hash (last (x # xs)) of None \<Rightarrow> '''' | Some s \<Rightarrow> s))
   = lastHash '''' (case history c of None \<Rightarrow> [] | Some xs \<Rightarrow> xs)"
  by (simp add: lastHash_def split: option.splits list.splits)

lemma verify_appendHistory:
  assumes "verifyHistoryChain digest c"
  shows "verifyHistoryChain digest (appendHistory digest now c e)"
  using assms
  unfolding verifyHistoryChain_def appendHistory_alt appendHistory_resume_def appendHistory_call_def
    Let_def prevHash_lastHash
  by (simp add: verify_loop_append [where ys = "[]"])

lemma run_Nil: "run digest [] st = st"
  by (simp add: run_def)

lemma run_append: "run digest (js @ ks) st = run digest ks (run digest js st)"
  by (simp add: run_def)

lemma run_awaited_call:
  assumes "suspended st = []"
  shows "run digest [Call now e, Resume 0] st =
    \<lparr>complaint_obj = appendHistory digest now (complaint_obj st) e, suspended = []\<rparr>"
  using assms by (simp add: run_def appendHistory_alt)

lemma verify_awaited:
  "verifyHistoryChain digest (complaint_obj st) \<Longrightarrow> suspended st = [] \<Longrightarrow>
     verifyHistoryChain digest (complaint_obj (run digest (awaited calls) st)) \<and>
     suspended (run digest (awaited calls) st) = []"
proof (induction calls arbitrary: st)
  case Nil
  then show ?case by (simp add: awaited_def run_Nil)
next
  case (Cons call calls)
  obtain now e where call: "call = (now, e)" by (cases call)
  let ?st = "\<lparr>complaint_obj = appendHistory digest now (complaint_obj st) e, suspended = []\<rparr>"
  have a: "awaited (call # calls) = [Call now e, Resume 0] @ awaited calls"
    by (simp add: awaited_def call)
  have r: "run digest (awaited (call # calls)) st = run digest (awaited calls) ?st"
    by (simp only: a run_append run_awaited_call [OF Cons.prems(2)])
  have "verifyHistoryChain digest (complaint_obj ?st)"
    using Cons.prems(1) by (simp add: verify_appendHistory)
  moreover have "suspended ?st = []" by simp
  ultimately show ?case unfolding r by (rule Cons.IH)
qed

lemma verify_empty: "history c = None \<or> history c = Some [] \<Longrightarrow> verifyHistoryChain digest c"
  by (auto simp: verifyHistoryChain_def)

lemma backfill_loop_dates: "map date (backfill_loop digest prev hist) = map date hist"
  by (induction hist arbitrary: prev) (auto simp: Let_def split: option.splits)

lemma backfill_loop_events: "map event (backfill_loop digest prev hist) = map event hist"
  by (induction hist arbitrary: prev) (auto simp: Let_def split: option.splits)

lemma backfill_loop_verify: "verifyHistoryChain_loop digest prev (backfill_loop digest prev hist)"
  by (induction hist arbitrary: prev) (auto simp: Let_def split: option.splits)

lemma backfill_loop_length: "length (backfill_loop digest prev hist) = length hist"
  by (induction hist arbitrary: prev) (auto simp: Let_def split: option.splits)

lemma tamper_loop:
  assumes inj: "inj digest"
    and ok: "verifyHistoryChain_loop digest prev hist"
    and i: "i < length hist"
    and h: "hash e' = hash (hist ! i)"
    and ch: "date e' @ ''|'' @ event e' \<noteq> date (hist ! i) @ ''|'' @ event (hist ! i)"
  shows "\<not> verifyHistoryChain_loop digest prev (hist[i := e'])"
proof
  assume bad: "verifyHistoryChain_loop digest prev (hist[i := e'])"
  from i have split: "hist = take i hist @ hist ! i # drop (Suc i) hist"
    by (simp add: id_take_nth_drop)
  from i have split': "hist[i := e'] = take i hist @ e' # drop (Suc i) hist"
    by (simp add: upd_conv_take_nth_drop)
  let ?p = "lastHash prev (take i hist)"
  from ok split have "hash (hist ! i) = Some (sha256Hex digest (?p @ ''|'' @ date (hist ! i) @ ''|'' @ event (hist ! i)))"
    using verify_loop_append [of digest prev "take i hist" "hist ! i" "drop (Suc i) hist"] by simp
  moreover from bad split' have "hash e' = Some (sha256Hex digest (?p @ ''|'' @ date e' @ ''|'' @ event e'))"
    using verify_loop_append [of digest prev "take i hist" e' "drop (Suc i) hist"] by simp
  ultimately have "sha256Hex digest (?p @ ''|'' @ date e' @ ''|'' @ event e')
      = sha256Hex digest (?p @ ''|'' @ date (hist ! i) @ ''|'' @ event (hist ! i))"
    using h by simp
  then have "?p @ ''|'' @ date e' @ ''|'' @ event e' = ?p @ ''|'' @ date (hist ! i) @ ''|'' @ event (hist ! i)"
    by (rule sha256Hex_inj [OF inj])
  with ch show False by simp
qed

lemma one_field_changed:
  "(d' \<noteq> d \<and> e' = e) \<or> (d' = d \<and> e' \<noteq> e) \<Longrightarrow> d' @ ''|'' @ e' \<noteq> d @ ''|'' @ (e :: string)"
  by auto

lemma backfill_verify: "verifyHistoryChain digest (backfill digest c)"
  by (cases "history c") (simp_all add: backfill_def verifyHistoryChain_def backfill_loop_verify)

lemma hexChar_hexDigit_all:
  "list_all (\<lambda>n. hexDigit n = hexChar n) [0..<16]"
  by code_simp

lemma hexChar_hexDigit: "n < 16 \<Longrightarrow> hexDigit n = hexChar n"
  using hexChar_hexDigit_all by (simp add: list_all_iff)

lemma lowercaseHex_render:
  "concat (map (\<lambda>b. padStart 2 (CHR ''0'') (toString16 (unat b))) bs) = lowercaseHex bs"
proof -
  have "padStart 2 (CHR ''0'') (toString16 (unat b)) = [hexChar (unat b div 16), hexChar (unat b mod 16)]"
    for b :: byte
  proof -
    have "unat b div 16 < 16" using unat_byte_lt [of b] by arith
    then show ?thesis by (simp add: hex_byte unat_byte_lt hexChar_hexDigit)
  qed
  then show ?thesis by (simp add: lowercaseHex_def)
qed

lemma or_128: "or (128::nat) (m mod 64) = 128 + m mod 64"
proof -
  have a: "(128::nat) = 2 ^ 7" by simp
  have b: "m mod 64 = take_bit 6 m" by (simp add: take_bit_eq_mod)
  have "(2 ^ 7 :: nat) + take_bit 6 m = or (2 ^ 7) (take_bit 6 m)"
  proof (rule disjunctive_add)
    fix k
    have "bit (2 ^ 7 :: nat) k \<Longrightarrow> k = 7" by (simp only: bit_exp_iff)
    moreover have "bit (take_bit 6 m) k \<Longrightarrow> k < 6" by (simp only: bit_take_bit_iff)
    ultimately show "\<not> bit (2 ^ 7 :: nat) k \<or> \<not> bit (take_bit 6 m) k" by fastforce
  qed
  then show ?thesis by (simp only: a b)
qed

lemma or_192: "m < 4 \<Longrightarrow> or (192::nat) m = 192 + m"
proof -
  assume "m < 4"
  then have "m = 0 \<or> m = 1 \<or> m = 2 \<or> m = 3" by arith
  then show ?thesis by (elim disjE) simp_all
qed

lemma utf8_unit_spec:
  "utf8_unit c = (let w = (of_char c :: byte)
                  in if w < 0x80 then [w] else [or 0xC0 (drop_bit 6 w), or 0x80 (take_bit 6 w)])"
proof -
  define n where "n = (of_char c :: nat)"
  define w where "w = (of_char c :: byte)"
  have n: "n < 256" unfolding n_def by (rule of_char_lt_256)
  have wn: "w = of_nat n" unfolding w_def n_def by (simp add: of_nat_of_char)
  have u: "unat w = n" unfolding wn using n by (rule unat_of_nat_byte)
  have lt: "w < 0x80 \<longleftrightarrow> n < 128" by (simp add: word_less_nat_alt u)
  show ?thesis
  proof (cases "n < 128")
    case True
    then show ?thesis
      using lt by (simp add: utf8_unit_def Let_def n_def [symmetric] w_def [symmetric] wn)
  next
    case False
    have d: "n div 64 < 4" using n by arith
    have "unat (or 0xC0 (drop_bit 6 w)) = or 192 (n div 64)"
      by (simp add: unsigned_or_eq unat_drop_bit_eq u drop_bit_eq_div unat_div)
    also have "\<dots> = 192 + n div 64" using d by (rule or_192)
    also have "\<dots> = unat (of_nat (192 + n div 64) :: byte)"
    proof -
      have "192 + n div 64 < 256" using d by arith
      then show ?thesis by (simp only: unat_of_nat_byte)
    qed
    finally have a: "or 0xC0 (drop_bit 6 w) = of_nat (192 + n div 64)"
      by (simp only: word_unat_eq_iff)
    have "unat (or 0x80 (take_bit 6 w)) = or 128 (n mod 64)"
      by (simp add: unsigned_or_eq unsigned_take_bit_eq u take_bit_eq_mod unat_mod)
    also have "\<dots> = 128 + n mod 64" by (rule or_128)
    also have "\<dots> = unat (of_nat (128 + n mod 64) :: byte)"
    proof -
      have "128 + n mod 64 < 256" by arith
      then show ?thesis by (simp only: unat_of_nat_byte)
    qed
    finally have b: "or 0x80 (take_bit 6 w) = of_nat (128 + n mod 64)"
      by (simp only: word_unat_eq_iff)
    show ?thesis
      using False lt
      by (simp add: utf8_unit_def Let_def n_def [symmetric] w_def [symmetric] a b)
  qed
qed

lemma utf8_encode: "encode s = utf8 s"
proof -
  have "utf8_unit = (\<lambda>c. let w = (of_char c :: byte)
                  in if w < 0x80 then [w] else [or 0xC0 (drop_bit 6 w), or 0x80 (take_bit 6 w)])"
    by (rule ext) (rule utf8_unit_spec)
  then show ?thesis unfolding encode_def utf8_def by (simp only:)
qed

lemma sha256Hex_spec: "sha256Hex digest s = lowercaseHex (digest (utf8 s))"
  unfolding sha256Hex_def by (simp only: lowercaseHex_render utf8_encode)

lemma tamper_same:
  assumes ok: "verifyHistoryChain_loop digest prev hist"
    and i: "i < length hist"
    and h: "hash e' = hash (hist ! i)"
    and same: "date e' @ ''|'' @ event e' = date (hist ! i) @ ''|'' @ event (hist ! i)"
  shows "verifyHistoryChain_loop digest prev (hist[i := e'])"
proof -
  from i have sp: "hist = take i hist @ hist ! i # drop (Suc i) hist"
    by (simp add: id_take_nth_drop)
  from i have sp': "hist[i := e'] = take i hist @ e' # drop (Suc i) hist"
    by (simp add: upd_conv_take_nth_drop)
  let ?p = "lastHash prev (take i hist)"
  have j: "?p @ ''|'' @ date e' @ ''|'' @ event e' = ?p @ ''|'' @ date (hist ! i) @ ''|'' @ event (hist ! i)"
    using same by simp
  have "verifyHistoryChain_loop digest prev (take i hist @ hist ! i # drop (Suc i) hist)"
    using ok sp by simp
  then have "verifyHistoryChain_loop digest prev (take i hist @ e' # drop (Suc i) hist)"
    unfolding verify_loop_append j h .
  then show ?thesis by (simp only: sp')
qed

lemma sha256Hex_nonempty:
  assumes "\<forall>bs. bs \<noteq> [] \<longrightarrow> digest bs \<noteq> []" and "s \<noteq> []"
  shows "sha256Hex digest s \<noteq> []"
proof -
  from assms(2) obtain c t where "s = c # t" by (cases s) auto
  then have "encode s \<noteq> []" by (simp add: encode_Cons utf8_unit_nonempty)
  with assms(1) have "digest (encode s) \<noteq> []" by blast
  then have "0 < length (sha256Hex digest s)" by (simp add: sha256Hex_length)
  then show ?thesis by auto
qed

lemma run_statusHandler:
  assumes "history c = None \<or> history c = Some []"
  shows "history (complaint_obj (run digest (statusHandler now1 newStatus now2 phsoId)
            \<lparr>complaint_obj = c, suspended = []\<rparr>)) =
     Some [\<lparr>date = take 10 now1, event = ''Status updated: '' @ newStatus,
             hash = Some (sha256Hex digest (''|'' @ take 10 now1 @ ''|'' @ ''Status updated: '' @ newStatus))\<rparr>,
           \<lparr>date = take 10 now2, event = ''PHSO case created: '' @ phsoId,
             hash = Some (sha256Hex digest (''|'' @ take 10 now2 @ ''|'' @ ''PHSO case created: '' @ phsoId))\<rparr>]"
  using assms
  by (auto simp: run_def statusHandler_def appendHistory_call_def appendHistory_resume_def Let_def)

lemma overlap_not_verified:
  assumes inj: "inj digest" and ne: "\<forall>bs. bs \<noteq> [] \<longrightarrow> digest bs \<noteq> []"
  shows "\<not> verifyHistoryChain_loop digest ''''
      [\<lparr>date = d1, event = e1, hash = Some (sha256Hex digest (''|'' @ d1 @ ''|'' @ e1))\<rparr>,
       \<lparr>date = d2, event = e2, hash = Some (sha256Hex digest (''|'' @ d2 @ ''|'' @ e2))\<rparr>]"
proof
  assume "verifyHistoryChain_loop digest ''''
      [\<lparr>date = d1, event = e1, hash = Some (sha256Hex digest (''|'' @ d1 @ ''|'' @ e1))\<rparr>,
       \<lparr>date = d2, event = e2, hash = Some (sha256Hex digest (''|'' @ d2 @ ''|'' @ e2))\<rparr>]"
  then have "sha256Hex digest (''|'' @ d2 @ ''|'' @ e2)
      = sha256Hex digest (sha256Hex digest (''|'' @ d1 @ ''|'' @ e1) @ ''|'' @ d2 @ ''|'' @ e2)"
    by (simp add: Let_def split: if_splits)
  then have "''|'' @ d2 @ ''|'' @ e2 = sha256Hex digest (''|'' @ d1 @ ''|'' @ e1) @ ''|'' @ d2 @ ''|'' @ e2"
    by (rule sha256Hex_inj [OF inj])
  then have "sha256Hex digest (''|'' @ d1 @ ''|'' @ e1) = []" by simp
  moreover have "sha256Hex digest (''|'' @ d1 @ ''|'' @ e1) \<noteq> []"
    using ne by (rule sha256Hex_nonempty) simp
  ultimately show False by contradiction
qed

section \<open>Claims about the audit chain\<close>

text \<open>
  When every call of \<open>appendHistory\<close> is awaited, each call completes before the next one
  starts, and the chain stays valid: from a complaint whose history verifies, with no call
  suspended, the jobs of any number of awaited calls leave a history that verifies.
\<close>

lemma awaited_chain_valid:
  assumes "history c = None \<or> history c = Some []"
  shows "verifyHistoryChain digest
           (complaint_obj (run digest (awaited calls) \<lparr>complaint_obj = c, suspended = []\<rparr>))"
proof -
  have "verifyHistoryChain digest (complaint_obj \<lparr>complaint_obj = c, suspended = []\<rparr>)"
    using assms by (simp add: verify_empty)
  then show ?thesis using verify_awaited [of digest "\<lparr>complaint_obj = c, suspended = []\<rparr>" calls] by simp
qed

text \<open>
  C1. Chain validity is meant to be an invariant of the append operation, and it is not: the
  status handler starts one \<open>appendHistory\<close> call without awaiting it and then a second one,
  so both read the predecessor hash before either has pushed its entry. On a complaint with an
  empty (or absent) history the two entries both carry a hash computed from the empty
  predecessor, and \<open>verifyHistoryChain\<close> returns false on a history that was built solely
  by \<open>appendHistory\<close>. This holds for every digest that is injective and maps a non-empty
  input to a non-empty output, whatever the clock readings, the status and the case id.
\<close>

theorem appendHistory_overlap_breaks_chain:
  assumes "inj digest" and "\<forall>bs. bs \<noteq> [] \<longrightarrow> digest bs \<noteq> []"
    and "history c = None \<or> history c = Some []"
  shows "history (complaint_obj (run digest (statusHandler now1 newStatus now2 phsoId)
            \<lparr>complaint_obj = c, suspended = []\<rparr>)) =
     Some [\<lparr>date = take 10 now1, event = ''Status updated: '' @ newStatus,
             hash = Some (sha256Hex digest (''|'' @ take 10 now1 @ ''|'' @ ''Status updated: '' @ newStatus))\<rparr>,
           \<lparr>date = take 10 now2, event = ''PHSO case created: '' @ phsoId,
             hash = Some (sha256Hex digest (''|'' @ take 10 now2 @ ''|'' @ ''PHSO case created: '' @ phsoId))\<rparr>] \<and>
   \<not> verifyHistoryChain digest (complaint_obj (run digest (statusHandler now1 newStatus now2 phsoId)
            \<lparr>complaint_obj = c, suspended = []\<rparr>))"
proof -
  note h = run_statusHandler [OF assms(3), of digest now1 newStatus now2 phsoId]
  have "\<not> verifyHistoryChain digest (complaint_obj (run digest (statusHandler now1 newStatus now2 phsoId)
            \<lparr>complaint_obj = c, suspended = []\<rparr>))"
    unfolding verifyHistoryChain_def h option.case
    using assms(1,2) by (rule overlap_not_verified)
  with h show ?thesis by (rule conjI)
qed

theorem appendHistory_overlap_breaks_chain_witness:
  "inj (\<lambda>bs :: byte list. bs) \<and> history seed_complaint = Some [] \<and>
   history (complaint_obj (run (\<lambda>bs. bs)
       (statusHandler ''2025-01-11T08:00:00.000Z'' ''Escalated to PHSO'' ''2025-01-11T08:00:00.001Z'' ''phso_001'')
       \<lparr>complaint_obj = seed_complaint, suspended = []\<rparr>)) =
     Some [\<lparr>date = ''2025-01-11'', event = ''Status updated: Escalated to PHSO'',
             hash = Some ''7c323032352d30312d31317c53746174757320757064617465643a20457363616c6174656420746f205048534f''\<rparr>,
           \<lparr>date = ''2025-01-11'', event = ''PHSO case created: phso_001'',
             hash = Some ''7c323032352d30312d31317c5048534f206361736520637265617465643a207068736f5f303031''\<rparr>] \<and>
   \<not> verifyHistoryChain (\<lambda>bs. bs) (complaint_obj (run (\<lambda>bs. bs)
       (statusHandler ''2025-01-11T08:00:00.000Z'' ''Escalated to PHSO'' ''2025-01-11T08:00:00.001Z'' ''phso_001'')
       \<lparr>complaint_obj = seed_complaint, suspended = []\<rparr>)) \<and>
   verifyHistoryChain (\<lambda>bs. bs) (complaint_obj (run (\<lambda>bs. bs)
       (awaited [(''2025-01-11T08:00:00.000Z'', ''Status updated: Escalated to PHSO''),
                 (''2025-01-11T08:00:00.001Z'', ''PHSO case created: phso_001'')])
       \<lparr>complaint_obj = seed_complaint, suspended = []\<rparr>))"
proof -
  have a: "inj (\<lambda>bs :: byte list. bs)" by (simp add: inj_def)
  have b: "\<forall>bs :: byte list. bs \<noteq> [] \<longrightarrow> (\<lambda>bs. bs) bs \<noteq> []" by simp
  have h: "history seed_complaint = Some []" by (simp add: seed_complaint_def)
  have c: "history seed_complaint = None \<or> history seed_complaint = Some []" using h by simp
  have e1: "sha256Hex (\<lambda>bs. bs) (''|'' @ take 10 ''2025-01-11T08:00:00.000Z'' @ ''|'' @ ''Status updated: '' @ ''Escalated to PHSO'')
      = ''7c323032352d30312d31317c53746174757320757064617465643a20457363616c6174656420746f205048534f''"
    by code_simp
  have e2: "sha256Hex (\<lambda>bs. bs) (''|'' @ take 10 ''2025-01-11T08:00:00.001Z'' @ ''|'' @ ''PHSO case created: '' @ ''phso_001'')
      = ''7c323032352d30312d31317c5048534f206361736520637265617465643a207068736f5f303031''"
    by code_simp
  note t = appendHistory_overlap_breaks_chain [OF a b c, of "''2025-01-11T08:00:00.000Z''"
      "''Escalated to PHSO''" "''2025-01-11T08:00:00.001Z''" "''phso_001''"]
  have g: "verifyHistoryChain (\<lambda>bs. bs) (complaint_obj (run (\<lambda>bs. bs)
       (awaited [(''2025-01-11T08:00:00.000Z'', ''Status updated: Escalated to PHSO''),
                 (''2025-01-11T08:00:00.001Z'', ''PHSO case created: phso_001'')])
       \<lparr>complaint_obj = seed_complaint, suspended = []\<rparr>))"
    using c by (rule awaited_chain_valid)
  from t have "history (complaint_obj (run (\<lambda>bs. bs)
       (statusHandler ''2025-01-11T08:00:00.000Z'' ''Escalated to PHSO'' ''2025-01-11T08:00:00.001Z'' ''phso_001'')
       \<lparr>complaint_obj = seed_complaint, suspended = []\<rparr>)) =
     Some [\<lparr>date = ''2025-01-11'', event = ''Status updated: Escalated to PHSO'',
             hash = Some ''7c323032352d30312d31317c53746174757320757064617465643a20457363616c6174656420746f205048534f''\<rparr>,
           \<lparr>date = ''2025-01-11'', event = ''PHSO case created: phso_001'',
             hash = Some ''7c323032352d30312d31317c5048534f206361736520637265617465643a207068736f5f303031''\<rparr>]"
    unfolding e1 e2 by simp
  with a h t g show ?thesis by blast
qed

text \<open>
  C2, as amended. Let the digest be injective and let a non-empty history verify. Replace
  one entry by an entry with the same hash and other values of \<open>date\<close> and \<open>event\<close>, all
  other entries and all hashes left as they are. Then \<open>verifyHistoryChain\<close> returns false
  exactly when the text \<open>date + "|" + event\<close> of the entry has changed. It has changed
  whenever exactly one of the two fields has another value, and whenever the date keeps its
  length and one of the fields has another value.
\<close>

theorem tamper_detection:
  assumes "inj digest"
    and "history c = Some hist"
    and "verifyHistoryChain digest c"
    and "i < length hist"
    and "hash e' = hash (hist ! i)"
  shows "(\<not> verifyHistoryChain digest (c\<lparr>history := Some (hist[i := e'])\<rparr>) \<longleftrightarrow>
            date e' @ ''|'' @ event e' \<noteq> date (hist ! i) @ ''|'' @ event (hist ! i)) \<and>
         ((date e' \<noteq> date (hist ! i) \<and> event e' = event (hist ! i)) \<or>
          (date e' = date (hist ! i) \<and> event e' \<noteq> event (hist ! i)) \<longrightarrow>
            \<not> verifyHistoryChain digest (c\<lparr>history := Some (hist[i := e'])\<rparr>)) \<and>
         (length (date e') = length (date (hist ! i)) \<and>
          (date e' \<noteq> date (hist ! i) \<or> event e' \<noteq> event (hist ! i)) \<longrightarrow>
            \<not> verifyHistoryChain digest (c\<lparr>history := Some (hist[i := e'])\<rparr>))"
proof -
  have ok: "verifyHistoryChain_loop digest '''' hist"
    using assms(2,3) by (simp add: verifyHistoryChain_def)
  have d: "\<not> verifyHistoryChain digest (c\<lparr>history := Some (hist[i := e'])\<rparr>)"
    if "date e' @ ''|'' @ event e' \<noteq> date (hist ! i) @ ''|'' @ event (hist ! i)"
    using tamper_loop [OF assms(1) ok assms(4,5) that] by (simp add: verifyHistoryChain_def)
  have s: "verifyHistoryChain digest (c\<lparr>history := Some (hist[i := e'])\<rparr>)"
    if "date e' @ ''|'' @ event e' = date (hist ! i) @ ''|'' @ event (hist ! i)"
    using tamper_same [OF ok assms(4,5) that] by (simp add: verifyHistoryChain_def)
  have one: "date e' @ ''|'' @ event e' \<noteq> date (hist ! i) @ ''|'' @ event (hist ! i)"
    if "(date e' \<noteq> date (hist ! i) \<and> event e' = event (hist ! i)) \<or>
        (date e' = date (hist ! i) \<and> event e' \<noteq> event (hist ! i))"
    using that by (rule one_field_changed)
  have len: "date e' @ ''|'' @ event e' \<noteq> date (hist ! i) @ ''|'' @ event (hist ! i)"
    if "length (date e') = length (date (hist ! i)) \<and>
        (date e' \<noteq> date (hist ! i) \<or> event e' \<noteq> event (hist ! i))"
    using that by auto
  from d s one len show ?thesis by blast
qed

theorem tamper_detection_witness:
  "inj (\<lambda>bs :: byte list. bs) \<and>
   history (seed_complaint\<lparr>history := Some chained_history\<rparr>) = Some chained_history \<and>
   verifyHistoryChain (\<lambda>bs. bs) (seed_complaint\<lparr>history := Some chained_history\<rparr>) \<and>
   1 < length chained_history \<and>
   hash tampered_entry = hash (chained_history ! 1) \<and>
   date tampered_entry = date (chained_history ! 1) \<and>
   event tampered_entry \<noteq> event (chained_history ! 1) \<and>
   \<not> verifyHistoryChain (\<lambda>bs. bs)
       (seed_complaint\<lparr>history := Some chained_history, history := Some (chained_history[1 := tampered_entry])\<rparr>)"
proof -
  let ?c = "seed_complaint\<lparr>history := Some chained_history\<rparr>"
  have a: "inj (\<lambda>bs :: byte list. bs)" by (simp add: inj_def)
  have b: "history ?c = Some chained_history" by simp
  have c: "verifyHistoryChain (\<lambda>bs. bs) ?c" by code_simp
  have d: "1 < length chained_history" by (simp add: chained_history_def)
  have e: "hash tampered_entry = hash (chained_history ! 1)"
    by (simp add: chained_history_def tampered_entry_def)
  have f: "date tampered_entry = date (chained_history ! 1)"
    and g: "event tampered_entry \<noteq> event (chained_history ! 1)"
    by (simp_all add: chained_history_def tampered_entry_def)
  from tamper_detection [OF a b c d e] a b c d e f g show ?thesis by simp
qed

text \<open>
  C2, as stated, fails: with the identity function as digest, which is injective, a history
  verifies, one entry gets another date and another event text while its hash and everything
  else stay as they are, and the history still verifies. The string that is hashed joins date
  and event with \<open>|\<close> and escapes nothing, so text can move across the separator.
\<close>

theorem tamper_detection_counterexample:
  "inj (\<lambda>bs :: byte list. bs) \<and>
   verifyHistoryChain (\<lambda>bs. bs) (seed_complaint\<lparr>history := Some separator_history\<rparr>) \<and>
   hash separator_entry = hash (separator_history ! 0) \<and>
   date separator_entry \<noteq> date (separator_history ! 0) \<and>
   event separator_entry \<noteq> event (separator_history ! 0) \<and>
   verifyHistoryChain (\<lambda>bs. bs) (seed_complaint\<lparr>history := Some (separator_history[0 := separator_entry])\<rparr>)"
proof -
  have a: "inj (\<lambda>bs :: byte list. bs)" by (simp add: inj_def)
  have b: "verifyHistoryChain (\<lambda>bs. bs) (seed_complaint\<lparr>history := Some separator_history\<rparr>)"
    by code_simp
  have c: "verifyHistoryChain (\<lambda>bs. bs) (seed_complaint\<lparr>history := Some (separator_history[0 := separator_entry])\<rparr>)"
    by code_simp
  have d: "hash separator_entry = hash (separator_history ! 0)"
    "date separator_entry \<noteq> date (separator_history ! 0)"
    "event separator_entry \<noteq> event (separator_history ! 0)"
    by (simp_all add: separator_history_def separator_entry_def)
  from a b c d show ?thesis by simp
qed

text \<open>
  C3. A call of \<open>appendHistory\<close> with event string \<open>e\<close> appends exactly one entry. The entry
  is fixed when the call starts: its date is the first ten code units of the clock's ISO
  string, which for a four-digit year is the calendar date without the time of day; its hash
  is the digest of the UTF-8 encoding of \<open>prevHash + "|" + date + "|" + e\<close>, rendered in
  lowercase hexadecimal with two digits a byte, where \<open>prevHash\<close> is the hash of the last
  entry of the history at that moment, or the empty string when that history is empty or
  absent or the last entry has no hash. When the call resumes, this one entry is put at the
  end of the history as it is then; for an awaited call that is the history the call read.
\<close>

theorem appendHistory_entry:
  "(history c = None \<or> history c = Some [] \<longrightarrow>
      appendHistory_call digest now c e =
        \<lparr>date = take 10 now, event = e,
         hash = Some (lowercaseHex (digest (utf8 (''|'' @ take 10 now @ ''|'' @ e))))\<rparr>) \<and>
   (history c = Some hist \<and> hist \<noteq> [] \<and> hash (last hist) = Some p \<longrightarrow>
      appendHistory_call digest now c e =
        \<lparr>date = take 10 now, event = e,
         hash = Some (lowercaseHex (digest (utf8 (p @ ''|'' @ take 10 now @ ''|'' @ e))))\<rparr>) \<and>
   (history c = Some hist \<and> hist \<noteq> [] \<and> hash (last hist) = None \<longrightarrow>
      appendHistory_call digest now c e =
        \<lparr>date = take 10 now, event = e,
         hash = Some (lowercaseHex (digest (utf8 (''|'' @ take 10 now @ ''|'' @ e))))\<rparr>) \<and>
   history (appendHistory_resume c' entry) =
     Some ((case history c' of None \<Rightarrow> [] | Some xs \<Rightarrow> xs) @ [entry]) \<and>
   history (appendHistory digest now c e) =
     Some ((case history c of None \<Rightarrow> [] | Some xs \<Rightarrow> xs) @ [appendHistory_call digest now c e]) \<and>
   (length y = 4 \<and> length m = 2 \<and> length d = 2 \<longrightarrow>
      date (appendHistory_call digest (y @ ''-'' @ m @ ''-'' @ d @ ''T'' @ t) c e) = y @ ''-'' @ m @ ''-'' @ d) \<and>
   set (lowercaseHex bs) \<subseteq> set ''0123456789abcdef'' \<and>
   length (lowercaseHex bs) = 2 * length bs"
proof -
  have 1: "history c = None \<or> history c = Some [] \<Longrightarrow>
      appendHistory_call digest now c e =
        \<lparr>date = take 10 now, event = e,
         hash = Some (lowercaseHex (digest (utf8 (''|'' @ take 10 now @ ''|'' @ e))))\<rparr>"
    by (auto simp: appendHistory_call_def Let_def sha256Hex_spec)
  have 2: "history c = Some hist \<and> hist \<noteq> [] \<and> hash (last hist) = Some p \<Longrightarrow>
      appendHistory_call digest now c e =
        \<lparr>date = take 10 now, event = e,
         hash = Some (lowercaseHex (digest (utf8 (p @ ''|'' @ take 10 now @ ''|'' @ e))))\<rparr>"
    by (cases hist) (auto simp: appendHistory_call_def Let_def sha256Hex_spec)
  have 3: "history c = Some hist \<and> hist \<noteq> [] \<and> hash (last hist) = None \<Longrightarrow>
      appendHistory_call digest now c e =
        \<lparr>date = take 10 now, event = e,
         hash = Some (lowercaseHex (digest (utf8 (''|'' @ take 10 now @ ''|'' @ e))))\<rparr>"
    by (cases hist) (auto simp: appendHistory_call_def Let_def sha256Hex_spec)
  have 4: "history (appendHistory_resume c' entry) =
     Some ((case history c' of None \<Rightarrow> [] | Some xs \<Rightarrow> xs) @ [entry])"
    by (simp add: appendHistory_resume_def)
  have 5: "history (appendHistory digest now c e) =
     Some ((case history c of None \<Rightarrow> [] | Some xs \<Rightarrow> xs) @ [appendHistory_call digest now c e])"
    by (simp add: appendHistory_alt appendHistory_resume_def)
  have 6: "length y = 4 \<and> length m = 2 \<and> length d = 2 \<Longrightarrow>
      date (appendHistory_call digest (y @ ''-'' @ m @ ''-'' @ d @ ''T'' @ t) c e) = y @ ''-'' @ m @ ''-'' @ d"
    by (simp add: appendHistory_call_def Let_def)
  have r: "lowercaseHex bs = sha256Hex (\<lambda>x. bs) []"
    by (simp add: sha256Hex_spec)
  have 7: "set (lowercaseHex bs) \<subseteq> set ''0123456789abcdef''"
    unfolding r by (rule sha256Hex_chars)
  have 8: "length (lowercaseHex bs) = 2 * length bs"
    unfolding r by (simp add: sha256Hex_length)
  from 1 2 3 4 5 6 7 8 show ?thesis by blast
qed

theorem appendHistory_entry_witness:
  "history seed_complaint = Some [] \<and>
   appendHistory_call (\<lambda>bs. bs) ''2025-01-10T09:30:00.000Z'' seed_complaint ''Created'' =
     \<lparr>date = ''2025-01-10'', event = ''Created'',
      hash = Some ''7c323032352d30312d31307c43726561746564''\<rparr> \<and>
   history (appendHistory (\<lambda>bs. bs) ''2025-01-10T09:30:00.000Z'' seed_complaint ''Created'') =
     Some [\<lparr>date = ''2025-01-10'', event = ''Created'',
            hash = Some ''7c323032352d30312d31307c43726561746564''\<rparr>] \<and>
   history (appendHistory (\<lambda>bs. bs) ''2025-01-11T08:00:00.000Z''
      (appendHistory (\<lambda>bs. bs) ''2025-01-10T09:30:00.000Z'' seed_complaint ''Created'') ''Filed'')
     = Some chained_history"
proof -
  let ?H1 = "''7c323032352d30312d31307c43726561746564''"
  let ?c1 = "appendHistory (\<lambda>bs. bs) ''2025-01-10T09:30:00.000Z'' seed_complaint ''Created''"
  have h: "history seed_complaint = Some []" by (simp add: seed_complaint_def)
  have e1: "lowercaseHex (utf8 (''|'' @ take 10 ''2025-01-10T09:30:00.000Z'' @ ''|'' @ ''Created'')) = ?H1"
    unfolding sha256Hex_spec [of "\<lambda>bs. bs", symmetric] by code_simp
  have e2: "lowercaseHex (utf8 (?H1 @ ''|'' @ take 10 ''2025-01-11T08:00:00.000Z'' @ ''|'' @ ''Filed''))
      = ''37633332333033323335326433303331326433313330376334333732363536313734363536347c323032352d30312d31317c46696c6564''"
    unfolding sha256Hex_spec [of "\<lambda>bs. bs", symmetric] by code_simp
  note t1 = appendHistory_entry [of seed_complaint "\<lambda>bs. bs" "''2025-01-10T09:30:00.000Z''" "''Created''"
      "[]" "''''" seed_complaint "\<lparr>date = '''', event = '''', hash = None\<rparr>"]
  from t1 h have k1: "appendHistory_call (\<lambda>bs. bs) ''2025-01-10T09:30:00.000Z'' seed_complaint ''Created'' =
     \<lparr>date = ''2025-01-10'', event = ''Created'', hash = Some ?H1\<rparr>"
    unfolding e1 by simp
  from t1 h k1 have k2: "history ?c1 = Some [\<lparr>date = ''2025-01-10'', event = ''Created'', hash = Some ?H1\<rparr>]"
    by simp
  note t2 = appendHistory_entry [of ?c1 "\<lambda>bs. bs" "''2025-01-11T08:00:00.000Z''" "''Filed''"
      "[\<lparr>date = ''2025-01-10'', event = ''Created'', hash = Some ?H1\<rparr>]" ?H1 seed_complaint
      "\<lparr>date = '''', event = '''', hash = None\<rparr>"]
  from t2 k2 have "history (appendHistory (\<lambda>bs. bs) ''2025-01-11T08:00:00.000Z'' ?c1 ''Filed'')
      = Some chained_history"
    unfolding e2 by (simp add: chained_history_def)
  with h k1 k2 show ?thesis by blast
qed

text \<open>
  C4. The backfill pass of \<open>Data.init\<close> walks a history with the running predecessor seeded
  from the empty string, leaves every entry's date and event text (and the number of entries)
  unchanged, and stores the recomputed hash wherever the stored one is missing, empty or
  different; afterwards \<open>verifyHistoryChain\<close> returns true, whatever hashes the entries held
  before, for each complaint of the loaded list.
\<close>

theorem backfill_chain_valid:
  "verifyHistoryChain digest (backfill digest c) \<and>
   map date (case history (backfill digest c) of None \<Rightarrow> [] | Some xs \<Rightarrow> xs) =
     map date (case history c of None \<Rightarrow> [] | Some xs \<Rightarrow> xs) \<and>
   map event (case history (backfill digest c) of None \<Rightarrow> [] | Some xs \<Rightarrow> xs) =
     map event (case history c of None \<Rightarrow> [] | Some xs \<Rightarrow> xs) \<and>
   (\<forall>c' \<in> set (init_backfill digest cs). verifyHistoryChain digest c')"
proof -
  have "verifyHistoryChain digest (backfill digest c)"
    by (rule backfill_verify)
  moreover have "map date (case history (backfill digest c) of None \<Rightarrow> [] | Some xs \<Rightarrow> xs) =
     map date (case history c of None \<Rightarrow> [] | Some xs \<Rightarrow> xs)"
    by (cases "history c") (simp_all add: backfill_def backfill_loop_dates)
  moreover have "map event (case history (backfill digest c) of None \<Rightarrow> [] | Some xs \<Rightarrow> xs) =
     map event (case history c of None \<Rightarrow> [] | Some xs \<Rightarrow> xs)"
    by (cases "history c") (simp_all add: backfill_def backfill_loop_events)
  moreover have "\<forall>c' \<in> set (init_backfill digest cs). verifyHistoryChain digest c'"
    by (auto simp: init_backfill_def backfill_verify)
  ultimately show ?thesis by blast
qed

theorem backfill_chain_valid_witness:
  "seed_complaint\<lparr>history := Some (backfill_loop (\<lambda>bs. bs) '''' legacy_history)\<rparr>
     \<in> set (init_backfill (\<lambda>bs. bs) [seed_complaint\<lparr>history := Some legacy_history\<rparr>]) \<and>
   \<not> verifyHistoryChain (\<lambda>bs. bs) (seed_complaint\<lparr>history := Some legacy_history\<rparr>) \<and>
   verifyHistoryChain (\<lambda>bs. bs) (seed_complaint\<lparr>history := Some (backfill_loop (\<lambda>bs. bs) '''' legacy_history)\<rparr>)"
proof -
  have m: "seed_complaint\<lparr>history := Some (backfill_loop (\<lambda>bs. bs) '''' legacy_history)\<rparr>
     \<in> set (init_backfill (\<lambda>bs. bs) [seed_complaint\<lparr>history := Some legacy_history\<rparr>])"
    by (simp add: init_backfill_def backfill_def)
  have n: "\<not> verifyHistoryChain (\<lambda>bs. bs) (seed_complaint\<lparr>history := Some legacy_history\<rparr>)"
    by (simp add: verifyHistoryChain_def legacy_history_def)
  from backfill_chain_valid [of "\<lambda>bs. bs" seed_complaint "[seed_complaint\<lparr>history := Some legacy_history\<rparr>]"] m n
  show ?thesis by blast
qed

section \<open>Properties of the pattern matcher\<close>

lemma toUpper_cases: "toUpper c = c \<and> c \<notin> set lower \<or> toUpper c \<in> set upper \<and> c \<in> set lower"
  by (simp add: toUpper_def lower_def upper_def)

lemma disj_upper_digits: "set upper \<inter> set digits = {}"
  by (simp add: upper_def digits_def)

lemma disj_lower_digits: "set lower \<inter> set digits = {}"
  by (simp add: lower_def digits_def)




lemma toUpper_in_digits: "toUpper c \<in> set digits \<longleftrightarrow> c \<in> set digits"
  using toUpper_cases [of c] disj_upper_digits disj_lower_digits by auto

lemma toUpper_digit: "c \<in> set digits \<Longrightarrow> toUpper c = c"
  using toUpper_cases [of c] disj_lower_digits by blast

lemma inClass_False: "inClass False cs c \<longleftrightarrow> c \<in> set cs"
  by (simp add: inClass_def canonicalize_def)

lemma inClass_True: "inClass True cs c \<longleftrightarrow> toUpper c \<in> toUpper ` set cs"
  by (simp add: inClass_def canonicalize_def)

lemma inClass_digits: "inClass ic digits c \<longleftrightarrow> c \<in> set digits"
proof (cases ic)
  case False then show ?thesis by (simp add: inClass_False)
next
  case True
  have "toUpper ` set digits = set digits" using toUpper_digit by force
  with True show ?thesis by (simp add: inClass_True toUpper_in_digits)
qed

lemma inClass_at: "inClass ic ''@'' c \<longleftrightarrow> c = CHR ''@''"
proof (cases ic)
  case False then show ?thesis by (simp add: inClass_False)
next
  case True
  have n: "CHR ''@'' \<notin> set lower" "CHR ''@'' \<notin> set upper" by (simp_all add: lower_def upper_def)
  then have m: "toUpper (CHR ''@'') = CHR ''@''" using toUpper_cases [of "CHR ''@''"] by blast
  have "toUpper c = CHR ''@'' \<longleftrightarrow> c = CHR ''@''"
    using toUpper_cases [of c] n by auto
  with True m show ?thesis by (simp add: inClass_True)
qed

lemma Cat_nomatch1: "ends ic r1 p s = [] \<Longrightarrow> ends ic (Cat r1 r2) p s = []"
  by simp

lemma Cat_nomatch2:
  assumes "\<And>p t. set t \<subseteq> S \<Longrightarrow> ends ic r2 p t = []" and "set s \<subseteq> S"
  shows "ends ic (Cat r1 r2) p s = []"
proof -
  have "set (drop n s) \<subseteq> S" for n using assms(2) set_drop_subset [of n s] by blast
  then show ?thesis by (simp add: assms(1))
qed

lemma Cls_nomatch:
  assumes "\<And>c. c \<in> S \<Longrightarrow> \<not> inClass ic cs c" and "set s \<subseteq> S"
  shows "ends ic (Cls cs) p s = []"
  using assms by (cases s) auto

lemma takeWhile_none: "(\<And>c. c \<in> set s \<Longrightarrow> \<not> P c) \<Longrightarrow> takeWhile P s = []"
  by (cases s) auto

lemma Rep_nomatch:
  assumes "\<And>c. c \<in> S \<Longrightarrow> \<not> inClass ic cs c" and "0 < lo" and "set s \<subseteq> S"
  shows "ends ic (Rep cs lo hi) p s = []"
proof -
  have "takeWhile (inClass ic cs) s = []" using assms(1,3) by (intro takeWhile_none) blast
  with assms(2) show ?thesis by (simp split: option.splits)
qed

lemma replace_loop_id:
  assumes "\<And>p t. set t \<subseteq> S \<Longrightarrow> ends ic r p t = []"
  shows "set s \<subseteq> S \<Longrightarrow> replace_loop ic r rep 0 p s = s"
  by (induction s arbitrary: p) (simp_all add: assms)

lemma replace_id:
  assumes "\<And>p t. set t \<subseteq> S \<Longrightarrow> ends ic r p t = []" and "set s \<subseteq> S"
  shows "replace ic r rep s = s"
  unfolding replace_def using assms by (rule replace_loop_id)

lemma email_nomatch:
  assumes "CHR ''@'' \<notin> S" and "set s \<subseteq> S"
  shows "ends ic email p s = []"
proof -
  have "ends ic (Cls ''@'') p t = []" if "set t \<subseteq> S" for p t
    using that assms(1) by (intro Cls_nomatch [of S]) (auto simp: inClass_at)
  then have "ends ic (Cat (Cls ''@'') r) p t = []" if "set t \<subseteq> S" for p t r
    using that by (intro Cat_nomatch1)
  then show ?thesis unfolding email_def seq.simps using assms(2) by (rule Cat_nomatch2)
qed

lemma digits_nomatch:
  assumes "S \<inter> set digits = {}" and "set s \<subseteq> S"
  shows "ends ic (Cls digits) p s = []" and "0 < lo \<Longrightarrow> ends ic (Rep digits lo hi) p s = []"
proof -
  have n: "\<not> inClass ic digits c" if "c \<in> S" for c using that assms(1) by (auto simp: inClass_digits)
  show "ends ic (Cls digits) p s = []" using n assms(2) by (rule Cls_nomatch)
  show "0 < lo \<Longrightarrow> ends ic (Rep digits lo hi) p s = []" using n _ assms(2) by (rule Rep_nomatch)
qed

lemma phone_nomatch:
  assumes "S \<inter> set digits = {}" and "set s \<subseteq> S"
  shows "ends ic phone p s = []"
proof -
  have a: "ends ic (Cat (Cls digits) r) p t = []" if "set t \<subseteq> S" for p t r
    using digits_nomatch(1) [OF assms(1) that] by (rule Cat_nomatch1)
  have b: "ends ic (Cat r' (Cat (Cls digits) r)) p t = []" if "set t \<subseteq> S" for p t r r'
    using a that by (rule Cat_nomatch2)
  show ?thesis unfolding phone_def seq.simps using b assms(2) by (rule Cat_nomatch2)
qed

lemma digits3_tail_nomatch:
  assumes "S \<inter> set digits = {}" and "set t \<subseteq> S" and "0 < lo"
  shows "ends ic (Cat (Rep digits lo hi) r) p t = []"
  using digits_nomatch(2) [OF assms(1,2,3)] by (rule Cat_nomatch1)

lemma badge_nomatch:
  assumes "S \<inter> set digits = {}" and "set s \<subseteq> S"
  shows "ends ic badge p s = []"
proof -
  have a: "ends ic (Cat (Rep digits 3 None) r) p t = []" if "set t \<subseteq> S" for p t r
    using assms(1) that by (rule digits3_tail_nomatch) simp
  have b: "ends ic (Cat r1 (Cat (Rep digits 3 None) r)) p t = []" if "set t \<subseteq> S" for p t r r1
    using a that by (rule Cat_nomatch2)
  have c: "ends ic (Cat r2 (Cat r1 (Cat (Rep digits 3 None) r))) p t = []" if "set t \<subseteq> S" for p t r r1 r2
    using b that by (rule Cat_nomatch2)
  have d: "ends ic (Cat r3 (Cat r2 (Cat r1 (Cat (Rep digits 3 None) r)))) p t = []"
    if "set t \<subseteq> S" for p t r r1 r2 r3
    using c that by (rule Cat_nomatch2)
  have e: "ends ic (Cat r4 (Cat r3 (Cat r2 (Cat r1 (Cat (Rep digits 3 None) r))))) p t = []"
    if "set t \<subseteq> S" for p t r r1 r2 r3 r4
    using d that by (rule Cat_nomatch2)
  show ?thesis unfolding badge_def seq.simps using e assms(2) by (rule Cat_nomatch2)
qed

lemma idlike_nomatch:
  assumes "S \<inter> set digits = {}" and "set s \<subseteq> S"
  shows "ends ic idlike p s = []"
proof -
  have a: "ends ic (Cat (Rep digits 3 (Some 6)) r) p t = []" if "set t \<subseteq> S" for p t r
    using assms(1) that by (rule digits3_tail_nomatch) simp
  have b: "ends ic (Cat r1 (Cat (Rep digits 3 (Some 6)) r)) p t = []" if "set t \<subseteq> S" for p t r r1
    using a that by (rule Cat_nomatch2)
  show ?thesis unfolding idlike_def seq.simps using b assms(2) by (rule Cat_nomatch2)
qed

lemma maskText_fixed:
  assumes "set s \<inter> set digits = {}" and "CHR ''@'' \<notin> set s"
  shows "maskText (Some s) = s"
proof -
  have e: "replace True email rep s = s" for rep
    using email_nomatch [OF assms(2)] subset_refl by (rule replace_id)
  have p: "replace False phone rep s = s" for rep
    using phone_nomatch [OF assms(1)] subset_refl by (rule replace_id)
  have b: "replace True badge rep s = s" for rep
    using badge_nomatch [OF assms(1)] subset_refl by (rule replace_id)
  have i: "replace False idlike rep s = s" for rep
    using idlike_nomatch [OF assms(1)] subset_refl by (rule replace_id)
  show ?thesis by (simp add: maskText_def e p b i)
qed
























lemma sep_class_digit: "d \<in> set digits \<Longrightarrow> inClass False (digits @ whitespace @ ''-()'') d"
  by (simp add: inClass_False)



















lemma placeholder_chars:
  assumes "\<forall>x \<in> set xs. x \<in> set placeholders \<or> (\<exists>c \<in> set whitespace. x = [c])"
  shows "set (concat xs) \<inter> set digits = {}" and "CHR ''@'' \<notin> set (concat xs)"
proof -
  have a: "set x \<inter> set digits = {} \<and> CHR ''@'' \<notin> set x" if "x \<in> set placeholders" for x
    using that by (auto simp: placeholders_def digits_def)
  have b: "c \<notin> set digits \<and> c \<noteq> CHR ''@''" if "c \<in> set whitespace" for c
    using that by (auto simp: whitespace_def digits_def)
  have "set x \<inter> set digits = {} \<and> CHR ''@'' \<notin> set x" if "x \<in> set xs" for x
    using assms that a b by fastforce
  then show "set (concat xs) \<inter> set digits = {}" and "CHR ''@'' \<notin> set (concat xs)"
    by auto
qed



































section \<open>Claims about masking\<close>



text \<open>
  C9. A string made only of the placeholder tokens \<open>[redacted-email]\<close>,
  \<open>[redacted-phone]\<close> and \<open>[redacted-id]\<close> and of whitespace characters is a fixed point of
  \<open>maskText\<close>.
\<close>

theorem maskText_placeholders_fixed:
  assumes "\<forall>x \<in> set xs. x \<in> set placeholders \<or> (\<exists>c \<in> set whitespace. x = [c])"
  shows "maskText (Some (concat xs)) = concat xs"
  using placeholder_chars [OF assms] by (rule maskText_fixed)

theorem maskText_placeholders_fixed_witness:
  "''[redacted-email]'' \<in> set placeholders \<and> ''[redacted-phone]'' \<in> set placeholders \<and>
   ''[redacted-id]'' \<in> set placeholders \<and> CHR '' '' \<in> set whitespace \<and> CHR 0x0A \<in> set whitespace \<and>
   maskText (Some (concat [''[redacted-email]'', '' '', ''[redacted-phone]'', [CHR 0x0A], ''[redacted-id]'']))
     = ''[redacted-email] [redacted-phone]'' @ [CHR 0x0A] @ ''[redacted-id]''"
proof -
  have a: "''[redacted-email]'' \<in> set placeholders" "''[redacted-phone]'' \<in> set placeholders"
    "''[redacted-id]'' \<in> set placeholders"
    by (simp_all add: placeholders_def)
  have b: "CHR '' '' \<in> set whitespace" "CHR 0x0A \<in> set whitespace"
    by (simp_all add: whitespace_def)
  have h: "\<forall>x \<in> set [''[redacted-email]'', '' '', ''[redacted-phone]'', [CHR 0x0A], ''[redacted-id]''].
      x \<in> set placeholders \<or> (\<exists>c \<in> set whitespace. x = [c])"
    using a b by simp
  from maskText_placeholders_fixed [OF h] a b show ?thesis by simp
qed


text \<open>
  C8. \<open>maskText\<close> applied to \<open>Contact: jane.doe@example.org re: case ABC1234\<close> returns
  \<open>Contact: [redacted-email] re: case [redacted-id]\<close>.
\<close>

theorem maskText_contact_scenario:
  "maskText (Some ''Contact: jane.doe@example.org re: case ABC1234'')
     = ''Contact: [redacted-email] re: case [redacted-id]''"
  by code_simp

section \<open>Properties of structural redaction\<close>

lemma redactFields_frame:
  assumes "\<And>k v ob. f (setProp k v ob) = f ob"
  shows "f (redactFields getProp setProp obj keys) = f obj"
  unfolding redactFields_def
  by (induction keys arbitrary: obj) (simp_all add: assms split: option.splits)

lemma redactConcern_attachments:
  "attachments (redactConcern ov c) =
     map_option (filter (\<lambda>key. key \<in> set (listOf (safeAttachments ov)))) (attachments c)"
proof -
  have "attachments (redactFields getConcern setConcern c keys) = attachments c" for keys
    by (rule redactFields_frame) (simp add: setConcern_def)
  then show ?thesis by (simp add: redactConcern_def Let_def split: option.splits)
qed

lemma redactConcern_frame:
  "concern_id (redactConcern ov c) = concern_id c"
  "responseDate (redactConcern ov c) = responseDate c"
proof -
  have "concern_id (redactFields getConcern setConcern c keys) = concern_id c" for keys
    by (rule redactFields_frame) (simp add: setConcern_def)
  then show "concern_id (redactConcern ov c) = concern_id c"
    by (simp add: redactConcern_def Let_def split: option.splits)
  have "responseDate (redactFields getConcern setConcern c keys) = responseDate c" for keys
    by (rule redactFields_frame) (simp add: setConcern_def)
  then show "responseDate (redactConcern ov c) = responseDate c"
    by (simp add: redactConcern_def Let_def split: option.splits)
qed

lemma redactConcern_notes:
  "map n_date (listOf (concern_notes (redactConcern ov c))) = map n_date (listOf (concern_notes c))"
proof -
  have "concern_notes (redactFields getConcern setConcern c keys) = concern_notes c" for keys
    by (rule redactFields_frame) (simp add: setConcern_def)
  then show ?thesis
    by (simp add: redactConcern_def redactNote_def redactResponse_def Let_def listOf_def comp_def split: option.splits)
qed

lemma redactConcern_responses:
  "map (\<lambda>r. (response_id r, r_date r, r_attachments r)) (listOf (responses (redactConcern ov c)))
     = map (\<lambda>r. (response_id r, r_date r, r_attachments r)) (listOf (responses c))"
proof -
  have "responses (redactFields getConcern setConcern c keys) = responses c" for keys
    by (rule redactFields_frame) (simp add: setConcern_def)
  then show ?thesis
    by (simp add: redactConcern_def redactNote_def redactResponse_def Let_def listOf_def comp_def split: option.splits)
qed

lemma redactComplaintDeep_concerns:
  "concerns (redactComplaintDeep c) = map_option (map (redactConcern (overridesOf c))) (concerns c)"
proof -
  have "concerns (redactFields getRoot setRoot c keys) = concerns c" for keys
    by (rule redactFields_frame) (simp add: setRoot_def)
  then show ?thesis by (simp add: redactComplaintDeep_def Let_def split: option.splits)
qed

lemma listOf_map_option: "listOf (map_option (map f) x) = map f (listOf x)"
  by (cases x) (simp_all add: listOf_def)


lemma filter_single: "distinct xs \<Longrightarrow> k \<in> set xs \<Longrightarrow> filter (\<lambda>x. x \<in> set [k]) xs = [k]"
  by (induction xs) (auto simp: filter_empty_conv)

lemma redactComplaintDeep_root_frame:
  assumes "\<And>k v ob. f (setRoot k v ob) = f ob" and "\<And>v ob. f (ob\<lparr>concerns := v\<rparr>) = f ob"
  shows "f (redactComplaintDeep c) = f c"
proof -
  have "f (redactFields getRoot setRoot c keys) = f c" for keys
    using assms(1) by (rule redactFields_frame)
  then show ?thesis by (simp add: redactComplaintDeep_def Let_def assms(2) split: option.splits)
qed

lemma listOf_Some: "listOf (Some xs) = xs"
  by (simp add: listOf_def)


lemma redactConcern_children:
  "evidence (redactConcern ov c) = Some (map (\<lambda>e. maskText (Some e)) (listOf (evidence c)))"
  "concern_notes (redactConcern ov c)
     = Some (map (redactNote (concernFlags ov (concernKey c))) (listOf (concern_notes c)))"
  "responses (redactConcern ov c)
     = Some (map (redactResponse (concernFlags ov (concernKey c))) (listOf (responses c)))"
proof -
  have f: "evidence (redactFields getConcern setConcern c keys) = evidence c"
    "concern_notes (redactFields getConcern setConcern c keys) = concern_notes c"
    "responses (redactFields getConcern setConcern c keys) = responses c" for keys
    by (rule redactFields_frame, simp add: setConcern_def)+
  show "evidence (redactConcern ov c) = Some (map (\<lambda>e. maskText (Some e)) (listOf (evidence c)))"
    "concern_notes (redactConcern ov c)
       = Some (map (redactNote (concernFlags ov (concernKey c))) (listOf (concern_notes c)))"
    "responses (redactConcern ov c)
       = Some (map (redactResponse (concernFlags ov (concernKey c))) (listOf (responses c)))"
    by (simp_all add: redactConcern_def Let_def f split: option.splits)
qed

lemma redactComplaintDeep_concerns_length:
  "map_option length (concerns (redactComplaintDeep c)) = map_option length (concerns c)"
  by (simp add: redactComplaintDeep_concerns option.map_comp comp_def)

lemma redaction_lists_present:
  "map (\<lambda>x. (evidence x \<noteq> None, map_option length (concern_notes x), map_option length (responses x)))
       (listOf (concerns (redactComplaintDeep c)))
     = map (\<lambda>x. (True, Some (length (listOf (concern_notes x))), Some (length (listOf (responses x)))))
         (listOf (concerns c))"
  by (simp add: redactComplaintDeep_concerns listOf_map_option redactConcern_children comp_def)

lemma redact_urls_length:
  "map_option length (n_urls (redactNote cov n)) = Some (length (listOf (n_urls n)))"
  "map_option length (r_urls (redactResponse cov r)) = Some (length (listOf (r_urls r)))"
  by (simp_all add: redactNote_def redactResponse_def)

lemma redaction_urls_present:
  "map (\<lambda>x. (map (\<lambda>n. map_option length (n_urls n)) (listOf (concern_notes x)),
              map (\<lambda>r. map_option length (r_urls r)) (listOf (responses x))))
       (listOf (concerns (redactComplaintDeep c)))
     = map (\<lambda>x. (map (\<lambda>n. Some (length (listOf (n_urls n)))) (listOf (concern_notes x)),
                map (\<lambda>r. Some (length (listOf (r_urls r)))) (listOf (responses x))))
         (listOf (concerns c))"
  by (simp add: redactComplaintDeep_concerns listOf_map_option redactConcern_children comp_def
      redact_urls_length listOf_Some)



section \<open>Claims about structural redaction\<close>




text \<open>
  C10, as amended. \<open>redactComplaintDeep\<close> changes only the nine listed top-level fields and,
  in each concern, its four text fields (summary, details, decisionMaker, response), its
  evidence list, its notes and responses lists and its attachments list (which is filtered
  when there is one); in each note its text and urls; in each response its decisionMaker,
  text and urls. The evidence, notes and responses of a concern, and the urls of a note or
  response, are lists in the output also where the input has none (they are then empty); the
  notes, responses and urls lists have as many entries as in the input. Every other field has
  the value it had in the input: the other fields of the complaint, among them its own
  attachments and the whole history, so that dates and event texts of the audit log pass
  through unmasked; whether there is a concerns list, and the number of concerns; each
  concern's id and response date, and whether it has an attachments list; the date of each
  note; the id, date and attachments of each response.
\<close>

theorem redaction_frame:
  "history (redactComplaintDeep c) = history c \<and>
   complaint_id (redactComplaintDeep c) = complaint_id c \<and>
   dateFiled (redactComplaintDeep c) = dateFiled c \<and>
   complaint_type (redactComplaintDeep c) = complaint_type c \<and>
   linkedSAR (redactComplaintDeep c) = linkedSAR c \<and>
   escalationPath (redactComplaintDeep c) = escalationPath c \<and>
   isPasswordProtected (redactComplaintDeep c) = isPasswordProtected c \<and>
   eventDate (redactComplaintDeep c) = eventDate c \<and>
   refusalDate (redactComplaintDeep c) = refusalDate c \<and>
   expectedResponseFrequency (redactComplaintDeep c) = expectedResponseFrequency c \<and>
   lastResponseDate (redactComplaintDeep c) = lastResponseDate c \<and>
   breachFlag (redactComplaintDeep c) = breachFlag c \<and>
   complaint_attachments (redactComplaintDeep c) = complaint_attachments c \<and>
   redactOverrides (redactComplaintDeep c) = redactOverrides c \<and>
   protected (redactComplaintDeep c) = protected c \<and>
   map concern_id (listOf (concerns (redactComplaintDeep c))) = map concern_id (listOf (concerns c)) \<and>
   map responseDate (listOf (concerns (redactComplaintDeep c))) = map responseDate (listOf (concerns c)) \<and>
   map (\<lambda>x. map n_date (listOf (concern_notes x))) (listOf (concerns (redactComplaintDeep c)))
     = map (\<lambda>x. map n_date (listOf (concern_notes x))) (listOf (concerns c)) \<and>
   map (\<lambda>x. map (\<lambda>r. (response_id r, r_date r, r_attachments r)) (listOf (responses x)))
       (listOf (concerns (redactComplaintDeep c)))
     = map (\<lambda>x. map (\<lambda>r. (response_id r, r_date r, r_attachments r)) (listOf (responses x)))
         (listOf (concerns c)) \<and>
   map_option length (concerns (redactComplaintDeep c)) = map_option length (concerns c) \<and>
   map (\<lambda>x. attachments x = None) (listOf (concerns (redactComplaintDeep c)))
     = map (\<lambda>x. attachments x = None) (listOf (concerns c)) \<and>
   map (\<lambda>x. (evidence x \<noteq> None, map_option length (concern_notes x), map_option length (responses x)))
       (listOf (concerns (redactComplaintDeep c)))
     = map (\<lambda>x. (True, Some (length (listOf (concern_notes x))), Some (length (listOf (responses x)))))
         (listOf (concerns c)) \<and>
   map (\<lambda>x. (map (\<lambda>n. map_option length (n_urls n)) (listOf (concern_notes x)),
              map (\<lambda>r. map_option length (r_urls r)) (listOf (responses x))))
       (listOf (concerns (redactComplaintDeep c)))
     = map (\<lambda>x. (map (\<lambda>n. Some (length (listOf (n_urls n)))) (listOf (concern_notes x)),
                map (\<lambda>r. Some (length (listOf (r_urls r)))) (listOf (responses x))))
         (listOf (concerns c))"
proof -
  have "history (redactComplaintDeep c) = history c"
    by (rule redactComplaintDeep_root_frame) (simp_all add: setRoot_def)
  moreover have "complaint_id (redactComplaintDeep c) = complaint_id c"
    by (rule redactComplaintDeep_root_frame) (simp_all add: setRoot_def)
  moreover have "dateFiled (redactComplaintDeep c) = dateFiled c"
    by (rule redactComplaintDeep_root_frame) (simp_all add: setRoot_def)
  moreover have "complaint_type (redactComplaintDeep c) = complaint_type c"
    by (rule redactComplaintDeep_root_frame) (simp_all add: setRoot_def)
  moreover have "linkedSAR (redactComplaintDeep c) = linkedSAR c"
    by (rule redactComplaintDeep_root_frame) (simp_all add: setRoot_def)
  moreover have "escalationPath (redactComplaintDeep c) = escalationPath c"
    by (rule redactComplaintDeep_root_frame) (simp_all add: setRoot_def)
  moreover have "isPasswordProtected (redactComplaintDeep c) = isPasswordProtected c"
    by (rule redactComplaintDeep_root_frame) (simp_all add: setRoot_def)
  moreover have "eventDate (redactComplaintDeep c) = eventDate c"
    by (rule redactComplaintDeep_root_frame) (simp_all add: setRoot_def)
  moreover have "refusalDate (redactComplaintDeep c) = refusalDate c"
    by (rule redactComplaintDeep_root_frame) (simp_all add: setRoot_def)
  moreover have "expectedResponseFrequency (redactComplaintDeep c) = expectedResponseFrequency c"
    by (rule redactComplaintDeep_root_frame) (simp_all add: setRoot_def)
  moreover have "lastResponseDate (redactComplaintDeep c) = lastResponseDate c"
    by (rule redactComplaintDeep_root_frame) (simp_all add: setRoot_def)
  moreover have "breachFlag (redactComplaintDeep c) = breachFlag c"
    by (rule redactComplaintDeep_root_frame) (simp_all add: setRoot_def)
  moreover have "complaint_attachments (redactComplaintDeep c) = complaint_attachments c"
    by (rule redactComplaintDeep_root_frame) (simp_all add: setRoot_def)
  moreover have "redactOverrides (redactComplaintDeep c) = redactOverrides c"
    by (rule redactComplaintDeep_root_frame) (simp_all add: setRoot_def)
  moreover have "protected (redactComplaintDeep c) = protected c"
    by (rule redactComplaintDeep_root_frame) (simp_all add: setRoot_def)
  moreover have "map concern_id (listOf (concerns (redactComplaintDeep c))) = map concern_id (listOf (concerns c))"
    by (simp add: redactComplaintDeep_concerns listOf_map_option redactConcern_frame)
  moreover have "map responseDate (listOf (concerns (redactComplaintDeep c))) = map responseDate (listOf (concerns c))"
    by (simp add: redactComplaintDeep_concerns listOf_map_option redactConcern_frame)
  moreover have "map (\<lambda>x. map n_date (listOf (concern_notes x))) (listOf (concerns (redactComplaintDeep c)))
     = map (\<lambda>x. map n_date (listOf (concern_notes x))) (listOf (concerns c))"
    by (simp add: redactComplaintDeep_concerns listOf_map_option redactConcern_notes)
  moreover have "map (\<lambda>x. map (\<lambda>r. (response_id r, r_date r, r_attachments r)) (listOf (responses x)))
       (listOf (concerns (redactComplaintDeep c)))
     = map (\<lambda>x. map (\<lambda>r. (response_id r, r_date r, r_attachments r)) (listOf (responses x)))
         (listOf (concerns c))"
    by (simp add: redactComplaintDeep_concerns listOf_map_option redactConcern_responses)
  moreover have "map_option length (concerns (redactComplaintDeep c)) = map_option length (concerns c)"
    by (rule redactComplaintDeep_concerns_length)
  moreover have "map (\<lambda>x. attachments x = None) (listOf (concerns (redactComplaintDeep c)))
     = map (\<lambda>x. attachments x = None) (listOf (concerns c))"
    by (simp add: redactComplaintDeep_concerns listOf_map_option redactConcern_attachments comp_def)
  moreover note redaction_lists_present [of c] redaction_urls_present [of c]
  ultimately show ?thesis by blast
qed

theorem redaction_frame_witness:
  "history (redactComplaintDeep sample_complaint)
     = Some [\<lparr>date = ''2025-02-01'', event = ''Note: jane@example.org'', hash = None\<rparr>]"
  using redaction_frame [of sample_complaint] by (simp add: sample_complaint_def)

text \<open>
  C10, as stated, fails: the decision-maker of a response is masked and the attachments of a
  concern are filtered, and a concern that has no notes and no responses comes back with an
  empty list of each, though none of these is among the fields the claim lists.
\<close>

theorem redaction_frame_counterexample:
  "map (\<lambda>x. map r_decisionMaker (listOf (responses x))) (listOf (concerns sample_complaint))
     = [[Some ''AB1234'']] \<and>
   map (\<lambda>x. map r_decisionMaker (listOf (responses x))) (listOf (concerns (redactComplaintDeep sample_complaint)))
     = [[Some ''[redacted-id]'']] \<and>
   map attachments (listOf (concerns sample_complaint)) = [Some [''a.pdf'', ''b.pdf'', ''c.pdf'']] \<and>
   map attachments (listOf (concerns (redactComplaintDeep sample_complaint))) = [Some []] \<and>
   map (\<lambda>x. (concern_notes x, responses x)) (listOf (concerns (sample_complaint\<lparr>concerns := Some [legacy_concern]\<rparr>)))
     = [(None, None)] \<and>
   map (\<lambda>x. (concern_notes x, responses x))
       (listOf (concerns (redactComplaintDeep (sample_complaint\<lparr>concerns := Some [legacy_concern]\<rparr>))))
     = [(Some [], Some [])]"
  by code_simp

section \<open>Properties of the store model\<close>

lemma assignable_refl: "assignable c c"
  by (simp add: assignable_def)

lemma concern_not_complaint: "isConcern b \<Longrightarrow> \<not> isComplaint b"
  by (cases b) (simp_all add: isConcern_def isComplaint_def)

lemma assignable_trans: "assignable a b \<Longrightarrow> assignable b c \<Longrightarrow> assignable a c"
  using concern_not_complaint [of b] by (auto simp: assignable_def)

lemma assignable_fixed: "assignable c c' \<Longrightarrow> \<not> isConcern c \<Longrightarrow> \<not> isComplaint c \<Longrightarrow> c' = c"
  by (auto simp: assignable_def)

lemma evolves_refl: "evolves h h"
  by (simp add: evolves_def assignable_refl)

lemma evolves_trans: "evolves h1 h2 \<Longrightarrow> evolves h2 h3 \<Longrightarrow> evolves h1 h3"
  unfolding evolves_def
  by (meson assignable_trans le_trans less_le_trans)

lemma evolves_append: "evolves h (h @ e)"
  by (simp add: evolves_def nth_append assignable_refl)

lemma evolves_concern: "h ! a = ConcernObj c \<Longrightarrow> evolves h (h[a := ConcernObj c'])"
proof -
  assume a: "h ! a = ConcernObj c"
  have "assignable (h ! x) (h[a := ConcernObj c'] ! x)" if "x < length h" for x
  proof (cases "x = a")
    case True
    with a that show ?thesis by (simp add: assignable_def isConcern_def)
  next
    case False
    then show ?thesis by (simp add: assignable_def)
  qed
  then show ?thesis by (simp add: evolves_def)
qed

lemma evolves_complaint: "h ! a = ComplaintObj c \<Longrightarrow> evolves h (h[a := ComplaintObj c'])"
proof -
  assume a: "h ! a = ComplaintObj c"
  have "assignable (h ! x) (h[a := ComplaintObj c'] ! x)" if "x < length h" for x
  proof (cases "x = a")
    case True
    with a that show ?thesis by (simp add: assignable_def isComplaint_def)
  next
    case False
    then show ?thesis by (simp add: assignable_def)
  qed
  then show ?thesis by (simp add: evolves_def)
qed

lemma evolves_length: "evolves h h' \<Longrightarrow> length h \<le> length h'"
  by (simp add: evolves_def)

lemma cellAt_bounds: "cellAt lo h a = Some c \<Longrightarrow> lo \<le> a \<and> a < length h \<and> h ! a = c"
  by (auto simp: cellAt_def split: if_splits)

lemma cellAt_evolves:
  assumes "cellAt lo h a = Some c" and "evolves h h'"
    and "\<not> isConcern c" and "\<not> isComplaint c"
  shows "cellAt lo h' a = Some c"
proof -
  from assms(1) have a: "lo \<le> a" "a < length h" "h ! a = c" using cellAt_bounds by blast+
  with assms(2) have "assignable c (h' ! a)" unfolding evolves_def by blast
  then have "h' ! a = c" using assms(3,4) by (rule assignable_fixed)
  moreover have "a < length h'" using a(2) assms(2) by (simp add: evolves_def)
  ultimately show ?thesis using a(1) by (simp add: cellAt_def)
qed

lemma cellAt_same:
  assumes "cellAt lo h a = Some c" and "length h \<le> length h'" and "h' ! a = h ! a"
  shows "cellAt lo h' a = Some c"
  using assms by (auto simp: cellAt_def split: if_splits)

lemma cellAt_lo: "cellAt lo h a = Some c \<Longrightarrow> lo' \<le> lo \<Longrightarrow> cellAt lo' h a = Some c"
  by (auto simp: cellAt_def split: if_splits)


lemma stringsAt_Some: "stringsAt lo h a = Some xs \<longleftrightarrow> cellAt lo h a = Some (Strings xs)"
  by (simp add: stringsAt_def split: option.splits cell.splits)

lemma objectsAt_Some: "objectsAt lo h a = Some xs \<longleftrightarrow> cellAt lo h a = Some (Objects xs)"
  by (simp add: objectsAt_def split: option.splits cell.splits)

lemma noteAt_Some: "noteAt lo h a = Some n \<longleftrightarrow> cellAt lo h a = Some (NoteObj n)"
  by (simp add: noteAt_def split: option.splits cell.splits)

lemma responseAt_Some: "responseAt lo h a = Some r \<longleftrightarrow> cellAt lo h a = Some (ResponseObj r)"
  by (simp add: responseAt_def split: option.splits cell.splits)

lemma concernAt_Some: "concernAt lo h a = Some c \<longleftrightarrow> cellAt lo h a = Some (ConcernObj c)"
  by (simp add: concernAt_def split: option.splits cell.splits)

lemma flagsMapAt_Some: "flagsMapAt lo h a = Some m \<longleftrightarrow> cellAt lo h a = Some (FlagsMapObj m)"
  by (simp add: flagsMapAt_def split: option.splits cell.splits)

lemma overridesAt_Some: "overridesAt lo h a = Some ov \<longleftrightarrow> cellAt lo h a = Some (OverridesObj ov)"
  by (simp add: overridesAt_def split: option.splits cell.splits)

lemma complaintAt_Some: "complaintAt lo h a = Some c \<longleftrightarrow> cellAt lo h a = Some (ComplaintObj c)"
  by (simp add: complaintAt_def split: option.splits cell.splits)

lemma readHistoryEntry_Some: "readHistoryEntry lo h a = Some e \<longleftrightarrow> cellAt lo h a = Some (HistoryObj e)"
  by (simp add: readHistoryEntry_def split: option.splits cell.splits)

lemma readFlagsEntry_Some:
  "readFlagsEntry lo h ka = Some v \<longleftrightarrow> (\<exists>f. cellAt lo h (snd ka) = Some (FlagsObj f) \<and> v = (fst ka, f))"
  by (auto simp add: readFlagsEntry_def split: option.splits cell.splits)

lemma immutable_cells:
  "\<not> isConcern (Strings xs)" "\<not> isComplaint (Strings xs)"
  "\<not> isConcern (Objects as)" "\<not> isComplaint (Objects as)"
  "\<not> isConcern (NoteObj n)" "\<not> isComplaint (NoteObj n)"
  "\<not> isConcern (ResponseObj r)" "\<not> isComplaint (ResponseObj r)"
  "\<not> isConcern (HistoryObj e)" "\<not> isComplaint (HistoryObj e)"
  "\<not> isConcern (FlagsObj f)" "\<not> isComplaint (FlagsObj f)"
  "\<not> isConcern (FlagsMapObj m)" "\<not> isComplaint (FlagsMapObj m)"
  "\<not> isConcern (OverridesObj ov)" "\<not> isComplaint (OverridesObj ov)"
  by (simp_all add: isConcern_def isComplaint_def)

lemma stringsAt_evolves: "stringsAt lo h a = Some xs \<Longrightarrow> evolves h h' \<Longrightarrow> stringsAt lo h' a = Some xs"
  unfolding stringsAt_Some by (rule cellAt_evolves) (simp_all add: immutable_cells)

lemma objectsAt_evolves: "objectsAt lo h a = Some xs \<Longrightarrow> evolves h h' \<Longrightarrow> objectsAt lo h' a = Some xs"
  unfolding objectsAt_Some by (rule cellAt_evolves) (simp_all add: immutable_cells)

lemma noteAt_evolves: "noteAt lo h a = Some xs \<Longrightarrow> evolves h h' \<Longrightarrow> noteAt lo h' a = Some xs"
  unfolding noteAt_Some by (rule cellAt_evolves) (simp_all add: immutable_cells)

lemma responseAt_evolves: "responseAt lo h a = Some xs \<Longrightarrow> evolves h h' \<Longrightarrow> responseAt lo h' a = Some xs"
  unfolding responseAt_Some by (rule cellAt_evolves) (simp_all add: immutable_cells)

lemma flagsMapAt_evolves: "flagsMapAt lo h a = Some xs \<Longrightarrow> evolves h h' \<Longrightarrow> flagsMapAt lo h' a = Some xs"
  unfolding flagsMapAt_Some by (rule cellAt_evolves) (simp_all add: immutable_cells)

lemma overridesAt_evolves: "overridesAt lo h a = Some xs \<Longrightarrow> evolves h h' \<Longrightarrow> overridesAt lo h' a = Some xs"
  unfolding overridesAt_Some by (rule cellAt_evolves) (simp_all add: immutable_cells)

lemma readHistoryEntry_evolves:
  "readHistoryEntry lo h a = Some v \<Longrightarrow> evolves h h' \<Longrightarrow> readHistoryEntry lo h' a = Some v"
  unfolding readHistoryEntry_Some by (rule cellAt_evolves) (simp_all add: immutable_cells)

lemma readFlagsEntry_evolves:
  "readFlagsEntry lo h ka = Some v \<Longrightarrow> evolves h h' \<Longrightarrow> readFlagsEntry lo h' ka = Some v"
  unfolding readFlagsEntry_Some
  by (elim exE conjE, intro exI conjI, erule cellAt_evolves) (simp_all add: immutable_cells)

lemma readStrings_Some:
  "readStrings lo h x = Some v \<longleftrightarrow>
     (x = None \<and> v = None) \<or> (\<exists>a xs. x = Some a \<and> v = Some xs \<and> stringsAt lo h a = Some xs)"
  by (cases x) (auto simp: readStrings_def)

lemma readStrings_evolves: "readStrings lo h x = Some v \<Longrightarrow> evolves h h' \<Longrightarrow> readStrings lo h' x = Some v"
  unfolding readStrings_Some by (blast intro: stringsAt_evolves)

lemma mapM_mono:
  assumes "mapM f xs = Some ys" and "\<And>x y. x \<in> set xs \<Longrightarrow> f x = Some y \<Longrightarrow> g x = Some y"
  shows "mapM g xs = Some ys"
  using assms by (induction xs arbitrary: ys) (auto split: option.splits)

lemma readArray_Some:
  "readArray rd lo h x = Some v \<longleftrightarrow>
     (x = None \<and> v = None) \<or>
     (\<exists>a as vs. x = Some a \<and> v = Some vs \<and> objectsAt lo h a = Some as \<and> mapM (rd lo h) as = Some vs)"
  by (cases x) (auto simp: readArray_def split: option.splits)

lemma readArray_evolves:
  assumes "readArray rd lo h x = Some v" and "evolves h h'"
    and "\<And>a w. rd lo h a = Some w \<Longrightarrow> rd lo h' a = Some w"
  shows "readArray rd lo h' x = Some v"
  using assms(1) unfolding readArray_Some
  by (blast intro: objectsAt_evolves [OF _ assms(2)] mapM_mono assms(3))

lemma readNote_Some:
  "readNote lo h a = Some v \<longleftrightarrow>
     (\<exists>n u. noteAt lo h a = Some n \<and> readStrings lo h (n_urls n) = Some u \<and> v = noteWith n u)"
  by (auto simp: readNote_def split: option.splits)

lemma readNote_evolves: "readNote lo h a = Some v \<Longrightarrow> evolves h h' \<Longrightarrow> readNote lo h' a = Some v"
  unfolding readNote_Some by (blast intro: noteAt_evolves readStrings_evolves)

lemma readResponse_Some:
  "readResponse lo h a = Some v \<longleftrightarrow>
     (\<exists>r u at. responseAt lo h a = Some r \<and> readStrings lo h (r_urls r) = Some u \<and>
        readStrings lo h (r_attachments r) = Some at \<and> v = responseWith r u at)"
  by (auto simp: readResponse_def split: option.splits)

lemma readResponse_evolves: "readResponse lo h a = Some v \<Longrightarrow> evolves h h' \<Longrightarrow> readResponse lo h' a = Some v"
  unfolding readResponse_Some by (blast intro: responseAt_evolves readStrings_evolves)

lemma readFlagsMap_Some:
  "readFlagsMap lo h x = Some v \<longleftrightarrow>
     (x = None \<and> v = None) \<or>
     (\<exists>a m fs. x = Some a \<and> v = Some fs \<and> flagsMapAt lo h a = Some m \<and> mapM (readFlagsEntry lo h) m = Some fs)"
  by (cases x) (auto simp: readFlagsMap_def split: option.splits)

lemma readFlagsMap_evolves:
  assumes "readFlagsMap lo h x = Some v" and "evolves h h'"
  shows "readFlagsMap lo h' x = Some v"
  using assms(1) unfolding readFlagsMap_Some
  by (blast intro: flagsMapAt_evolves [OF _ assms(2)] mapM_mono readFlagsEntry_evolves [OF _ assms(2)])

lemma readOverrides_Some:
  "readOverrides lo h x = Some v \<longleftrightarrow>
     (x = None \<and> v = None) \<or>
     (\<exists>a ov m s. x = Some a \<and> overridesAt lo h a = Some ov \<and> readFlagsMap lo h (ov_concerns ov) = Some m \<and>
        readStrings lo h (safeAttachments ov) = Some s \<and> v = Some (overridesWith ov m s))"
  by (cases x) (auto simp: readOverrides_def split: option.splits)

lemma readOverrides_evolves:
  assumes "readOverrides lo h x = Some v" and "evolves h h'"
  shows "readOverrides lo h' x = Some v"
  using assms(1) unfolding readOverrides_Some
  by (blast intro: overridesAt_evolves [OF _ assms(2)] readFlagsMap_evolves [OF _ assms(2)]
      readStrings_evolves [OF _ assms(2)])

lemma readConcern_Some:
  "readConcern lo h a = Some v \<longleftrightarrow>
     (\<exists>c e ns rs at. concernAt lo h a = Some c \<and> readStrings lo h (evidence c) = Some e \<and>
        readArray readNote lo h (concern_notes c) = Some ns \<and>
        readArray readResponse lo h (responses c) = Some rs \<and>
        readStrings lo h (attachments c) = Some at \<and> v = concernWith c e ns rs at)"
  by (auto simp: readConcern_def split: option.splits)

lemma concernAt_same:
  "concernAt lo h a = Some c \<Longrightarrow> evolves h h' \<Longrightarrow> h' ! a = h ! a \<Longrightarrow> concernAt lo h' a = Some c"
  unfolding concernAt_Some by (rule cellAt_same) (simp_all add: evolves_length)

lemma complaintAt_same:
  "complaintAt lo h a = Some c \<Longrightarrow> evolves h h' \<Longrightarrow> h' ! a = h ! a \<Longrightarrow> complaintAt lo h' a = Some c"
  unfolding complaintAt_Some by (rule cellAt_same) (simp_all add: evolves_length)

lemma readNotes_evolves:
  "readArray readNote lo h x = Some v \<Longrightarrow> evolves h h' \<Longrightarrow> readArray readNote lo h' x = Some v"
  by (erule readArray_evolves, assumption) (rule readNote_evolves)

lemma readResponses_evolves:
  "readArray readResponse lo h x = Some v \<Longrightarrow> evolves h h' \<Longrightarrow> readArray readResponse lo h' x = Some v"
  by (erule readArray_evolves, assumption) (rule readResponse_evolves)

lemma readHistory_evolves:
  "readArray readHistoryEntry lo h x = Some v \<Longrightarrow> evolves h h' \<Longrightarrow> readArray readHistoryEntry lo h' x = Some v"
  by (erule readArray_evolves, assumption) (rule readHistoryEntry_evolves)

lemma readConcern_evolves:
  assumes "readConcern lo h a = Some v" and "evolves h h'" and "h' ! a = h ! a"
  shows "readConcern lo h' a = Some v"
  using assms(1) unfolding readConcern_Some
  by (blast intro: concernAt_same [OF _ assms(2,3)] readStrings_evolves [OF _ assms(2)]
      readNotes_evolves [OF _ assms(2)] readResponses_evolves [OF _ assms(2)])

lemma readComplaint_Some:
  "readComplaint lo h a = Some v \<longleftrightarrow>
     (\<exists>c cs ep at hs ov. complaintAt lo h a = Some c \<and>
        readArray readConcern lo h (concerns c) = Some cs \<and>
        readStrings lo h (escalationPath c) = Some ep \<and>
        readStrings lo h (complaint_attachments c) = Some at \<and>
        readArray readHistoryEntry lo h (history c) = Some hs \<and>
        readOverrides lo h (redactOverrides c) = Some ov \<and> v = complaintWith c cs ep at hs ov)"
  by (auto simp: readComplaint_def split: option.splits)

text \<open>A store that only grew reads as before.\<close>

lemma evolves_prefix: "take (length h) h' = h \<Longrightarrow> evolves h h'"
  by (metis append_take_drop_id evolves_append)

lemma prefix_nth: "take (length h) h' = h \<Longrightarrow> x < length h \<Longrightarrow> h' ! x = h ! x"
  by (metis nth_take)

lemma readConcern_prefix:
  assumes "readConcern lo h a = Some v" and "take (length h) h' = h"
  shows "readConcern lo h' a = Some v"
proof -
  from assms(1) have "a < length h"
    unfolding readConcern_Some concernAt_Some using cellAt_bounds by blast
  then have "h' ! a = h ! a" using assms(2) by (simp add: prefix_nth)
  with assms show ?thesis by (blast intro: readConcern_evolves evolves_prefix)
qed

lemma readComplaint_prefix:
  assumes "readComplaint lo h a = Some v" and "take (length h) h' = h"
  shows "readComplaint lo h' a = Some v"
proof -
  have e: "evolves h h'" using assms(2) by (rule evolves_prefix)
  have c: "readArray readConcern lo h x = Some w \<Longrightarrow> readArray readConcern lo h' x = Some w" for x w
    by (erule readArray_evolves [OF _ e]) (rule readConcern_prefix [OF _ assms(2)])
  have k: "complaintAt lo h a = Some k \<Longrightarrow> complaintAt lo h' a = Some k" for k
  proof -
    assume k: "complaintAt lo h a = Some k"
    then have "a < length h" unfolding complaintAt_Some using cellAt_bounds by blast
    then have "h' ! a = h ! a" using assms(2) by (simp add: prefix_nth)
    with k e show ?thesis by (rule complaintAt_same)
  qed
  show ?thesis
    using assms(1) unfolding readComplaint_Some
    by (blast intro: k c readStrings_evolves [OF _ e] readHistory_evolves [OF _ e] readOverrides_evolves [OF _ e])
qed

text \<open>Reading with a lower bound reads the same without it.\<close>

lemma stringsAt_lo: "stringsAt lo h a = Some v \<Longrightarrow> stringsAt 0 h a = Some v"
  unfolding stringsAt_Some by (erule cellAt_lo) simp

lemma objectsAt_lo: "objectsAt lo h a = Some v \<Longrightarrow> objectsAt 0 h a = Some v"
  unfolding objectsAt_Some by (erule cellAt_lo) simp

lemma noteAt_lo: "noteAt lo h a = Some v \<Longrightarrow> noteAt 0 h a = Some v"
  unfolding noteAt_Some by (erule cellAt_lo) simp

lemma responseAt_lo: "responseAt lo h a = Some v \<Longrightarrow> responseAt 0 h a = Some v"
  unfolding responseAt_Some by (erule cellAt_lo) simp

lemma concernAt_lo: "concernAt lo h a = Some v \<Longrightarrow> concernAt 0 h a = Some v"
  unfolding concernAt_Some by (erule cellAt_lo) simp

lemma complaintAt_lo: "complaintAt lo h a = Some v \<Longrightarrow> complaintAt 0 h a = Some v"
  unfolding complaintAt_Some by (erule cellAt_lo) simp

lemma readStrings_lo: "readStrings lo h x = Some v \<Longrightarrow> readStrings 0 h x = Some v"
  unfolding readStrings_Some by (blast intro: stringsAt_lo)

lemma prefix_length: "take (length h) h' = h \<Longrightarrow> length h \<le> length h'"
proof -
  assume "take (length h) h' = h"
  then have "length (take (length h) h') = length h" by simp
  then show ?thesis by simp
qed

lemma prefix_trans:
  "take (length h1) h2 = h1 \<Longrightarrow> take (length h2) h3 = h2 \<Longrightarrow> take (length h1) h3 = h1"
proof -
  assume a: "take (length h1) h2 = h1" and b: "take (length h2) h3 = h2"
  have "length h1 \<le> length h2" using a by (rule prefix_length)
  then have "take (length h1) h3 = take (length h1) (take (length h2) h3)" by (simp add: min_def)
  with a b show ?thesis by simp
qed

lemma prefix_append: "take (length h) (h @ e) = h"
  by simp

lemma buildsD:
  assumes "builds f rd" and "f v h = (a, h')"
  shows "take (length h) h' = h" and "length h \<le> a" and "a < length h'"
    and "lo \<le> length h \<Longrightarrow> rd lo h' a = Some v"
  using assms unfolding builds_def by blast+

lemma buildsOptD:
  assumes "buildsOpt f rd" and "f v h = (x, h')"
  shows "take (length h) h' = h" and "lo \<le> length h \<Longrightarrow> rd lo h' x = Some v"
  using assms unfolding buildsOpt_def by blast+

lemma cellAt_alloc: "lo \<le> length h \<Longrightarrow> cellAt lo (h @ [c]) (length h) = Some c"
  by (simp add: cellAt_def)

lemma builds_strings: "buildsOpt allocStrings readStrings"
  unfolding buildsOpt_def
proof (intro allI impI)
  fix v :: "string list option" and h x h'
  assume a: "allocStrings v h = (x, h')"
  show "take (length h) h' = h \<and> (\<forall>lo \<le> length h. readStrings lo h' x = Some v)"
  proof (cases v)
    case None
    with a show ?thesis by (simp add: allocStrings_def readStrings_def)
  next
    case (Some xs)
    with a have "x = Some (length h)" "h' = h @ [Strings xs]"
      by (simp_all add: allocStrings_def alloc_def)
    with Some show ?thesis by (simp add: readStrings_def stringsAt_def cellAt_alloc)
  qed
qed

lemma noteWith_simps:
  "n_text (noteWith n u) = n_text n" "n_urls (noteWith n u) = u" "n_date (noteWith n u) = n_date n"
  "noteWith (noteWith n u) w = noteWith n w" "noteWith n (n_urls n) = n"
  by (simp_all add: noteWith_def)

lemma responseWith_simps:
  "r_urls (responseWith r u at) = u" "r_attachments (responseWith r u at) = at"
  "responseWith (responseWith r u at) u' at' = responseWith r u' at'"
  "responseWith r (r_urls r) (r_attachments r) = r"
  by (simp_all add: responseWith_def)

lemma concernWith_simps:
  "evidence (concernWith c e ns rs at) = e" "concern_notes (concernWith c e ns rs at) = ns"
  "responses (concernWith c e ns rs at) = rs" "attachments (concernWith c e ns rs at) = at"
  "concernWith (concernWith c e ns rs at) e' ns' rs' at' = concernWith c e' ns' rs' at'"
  "concernWith c (evidence c) (concern_notes c) (responses c) (attachments c) = c"
  by (simp_all add: concernWith_def)

lemma overridesWith_simps:
  "flags (overridesWith ov m s) = flags ov"
  "ov_concerns (overridesWith ov m s) = m" "safeAttachments (overridesWith ov m s) = s"
  "overridesWith (overridesWith ov m s) m' s' = overridesWith ov m' s'"
  "overridesWith ov (ov_concerns ov) (safeAttachments ov) = ov"
  by (simp_all add: overridesWith_def)

lemma complaintWith_simps:
  "concerns (complaintWith c cs ep at hs ov) = cs" "escalationPath (complaintWith c cs ep at hs ov) = ep"
  "complaint_attachments (complaintWith c cs ep at hs ov) = at"
  "history (complaintWith c cs ep at hs ov) = hs" "redactOverrides (complaintWith c cs ep at hs ov) = ov"
  "complaintWith (complaintWith c cs ep at hs ov) cs' ep' at' hs' ov' = complaintWith c cs' ep' at' hs' ov'"
  "complaintWith c (concerns c) (escalationPath c) (complaint_attachments c) (history c) (redactOverrides c) = c"
  by (simp_all add: complaintWith_def)

lemma builds_note: "builds allocNote readNote"
  unfolding builds_def
proof (intro allI impI)
  fix n :: note_entry and h a h'
  assume a: "allocNote n h = (a, h')"
  obtain u h1 where s: "allocStrings (n_urls n) h = (u, h1)" by (cases "allocStrings (n_urls n) h")
  with a have a': "a = length h1" and h': "h' = h1 @ [NoteObj (noteWith n u)]"
    by (simp_all add: allocNote_def alloc_def)
  have p: "take (length h) h1 = h" using builds_strings s by (rule buildsOptD)
  have l: "length h \<le> length h1" using p by (rule prefix_length)
  have r: "readNote lo h' a = Some n" if "lo \<le> length h" for lo
  proof -
    have "readStrings lo h1 u = Some (n_urls n)" using builds_strings s that by (rule buildsOptD)
    then have "readStrings lo h' u = Some (n_urls n)"
      unfolding h' by (rule readStrings_evolves) (rule evolves_append)
    moreover have "noteAt lo h' a = Some (noteWith n u)"
      using that l by (simp add: noteAt_Some a' h' cellAt_alloc)
    ultimately show ?thesis by (simp add: readNote_Some noteWith_simps)
  qed
  show "take (length h) h' = h \<and> length h \<le> a \<and> a < length h' \<and> (\<forall>lo\<le>length h. readNote lo h' a = Some n)"
    using p l r by (simp add: a' h')
qed

lemma readStrings_prefix:
  "readStrings lo h x = Some v \<Longrightarrow> take (length h) h' = h \<Longrightarrow> readStrings lo h' x = Some v"
  by (blast intro: readStrings_evolves evolves_prefix)

lemma readNote_prefix:
  "readNote lo h x = Some v \<Longrightarrow> take (length h) h' = h \<Longrightarrow> readNote lo h' x = Some v"
  by (blast intro: readNote_evolves evolves_prefix)

lemma readResponse_prefix:
  "readResponse lo h x = Some v \<Longrightarrow> take (length h) h' = h \<Longrightarrow> readResponse lo h' x = Some v"
  by (blast intro: readResponse_evolves evolves_prefix)

lemma readHistoryEntry_prefix:
  "readHistoryEntry lo h x = Some v \<Longrightarrow> take (length h) h' = h \<Longrightarrow> readHistoryEntry lo h' x = Some v"
  by (blast intro: readHistoryEntry_evolves evolves_prefix)

lemma readFlagsEntry_prefix:
  "readFlagsEntry lo h x = Some v \<Longrightarrow> take (length h) h' = h \<Longrightarrow> readFlagsEntry lo h' x = Some v"
  by (blast intro: readFlagsEntry_evolves evolves_prefix)

lemma readArray_prefix:
  assumes "readArray rd lo h x = Some v" and "take (length h) h' = h"
    and "\<And>a w. rd lo h a = Some w \<Longrightarrow> rd lo h' a = Some w"
  shows "readArray rd lo h' x = Some v"
  using assms(1) evolves_prefix [OF assms(2)] assms(3) by (rule readArray_evolves)

lemma stableD:
  "stable rd \<Longrightarrow> rd lo h a = Some w \<Longrightarrow> take (length h) h' = h \<Longrightarrow> rd lo h' a = Some w"
  unfolding stable_def by blast

lemma stable_note: "stable readNote"
  unfolding stable_def by (blast intro: readNote_prefix)

lemma stable_response: "stable readResponse"
  unfolding stable_def by (blast intro: readResponse_prefix)

lemma stable_history: "stable readHistoryEntry"
  unfolding stable_def by (blast intro: readHistoryEntry_prefix)

lemma stable_concern: "stable readConcern"
  unfolding stable_def by (blast intro: readConcern_prefix)

lemma builds_response: "builds allocResponse readResponse"
  unfolding builds_def
proof (intro allI impI)
  fix r :: response_entry and h a h'
  assume a: "allocResponse r h = (a, h')"
  obtain u h1 where s1: "allocStrings (r_urls r) h = (u, h1)" by (cases "allocStrings (r_urls r) h")
  obtain at h2 where s2: "allocStrings (r_attachments r) h1 = (at, h2)"
    by (cases "allocStrings (r_attachments r) h1")
  from a s1 s2 have a': "a = length h2" and h': "h' = h2 @ [ResponseObj (responseWith r u at)]"
    by (simp_all add: allocResponse_def alloc_def)
  have p1: "take (length h) h1 = h" using builds_strings s1 by (rule buildsOptD)
  have p2: "take (length h1) h2 = h1" using builds_strings s2 by (rule buildsOptD)
  have l: "length h \<le> length h1" "length h1 \<le> length h2" using p1 p2 by (simp_all add: prefix_length)
  have p: "take (length h) h2 = h" using p1 p2 by (rule prefix_trans)
  have rd: "readResponse lo h' a = Some r" if "lo \<le> length h" for lo
  proof -
    have "readStrings lo h1 u = Some (r_urls r)" using builds_strings s1 that by (rule buildsOptD)
    then have "readStrings lo h2 u = Some (r_urls r)" using p2 by (rule readStrings_prefix)
    then have u: "readStrings lo h' u = Some (r_urls r)"
      unfolding h' by (rule readStrings_evolves) (rule evolves_append)
    have "lo \<le> length h1" using that l by simp
    with builds_strings s2 have "readStrings lo h2 at = Some (r_attachments r)" by (rule buildsOptD)
    then have at: "readStrings lo h' at = Some (r_attachments r)"
      unfolding h' by (rule readStrings_evolves) (rule evolves_append)
    have "responseAt lo h' a = Some (responseWith r u at)"
      using that l by (simp add: responseAt_Some a' h' cellAt_alloc)
    with u at show ?thesis by (simp add: readResponse_Some responseWith_simps)
  qed
  show "take (length h) h' = h \<and> length h \<le> a \<and> a < length h' \<and> (\<forall>lo\<le>length h. readResponse lo h' a = Some r)"
    using p l rd by (simp add: a' h')
qed

lemma builds_history: "builds allocHistoryEntry readHistoryEntry"
  unfolding builds_def
  by (auto simp: allocHistoryEntry_def alloc_def readHistoryEntry_Some cellAt_alloc)

lemma allocList_spec:
  assumes b: "builds f rd"
    and st: "stable rd"
  shows "allocList f vs h = (as, h') \<Longrightarrow>
     take (length h) h' = h \<and> (\<forall>lo \<le> length h. mapM (rd lo h') as = Some vs) \<and>
     distinct as \<and> (\<forall>a \<in> set as. length h \<le> a \<and> a < length h')"
proof (induction vs arbitrary: h as h')
  case Nil
  then show ?case by simp
next
  case (Cons v vs)
  obtain a h1 where f: "f v h = (a, h1)" by (cases "f v h")
  obtain as' h2 where r: "allocList f vs h1 = (as', h2)" by (cases "allocList f vs h1")
  from Cons.prems f r have as: "as = a # as'" and h': "h' = h2" by simp_all
  note ih = Cons.IH [OF r]
  have p1: "take (length h) h1 = h" and a1: "length h \<le> a" and a2: "a < length h1"
    using b f by (rule buildsD)+
  have p2: "take (length h1) h2 = h1" using ih by blast
  have l: "length h \<le> length h1" "length h1 \<le> length h2" using p1 p2 by (simp_all add: prefix_length)
  have p: "take (length h) h2 = h" using p1 p2 by (rule prefix_trans)
  have m: "mapM (rd lo h2) (a # as') = Some (v # vs)" if "lo \<le> length h" for lo
  proof -
    have "rd lo h1 a = Some v" using b f that by (rule buildsD)
    with st have "rd lo h2 a = Some v" using p2 by (rule stableD)
    moreover have "mapM (rd lo h2) as' = Some vs" using ih that l by simp
    ultimately show ?thesis by simp
  qed
  have d: "a \<notin> set as'" using ih a2 by auto
  have bounds: "\<forall>x \<in> set (a # as'). length h \<le> x \<and> x < length h2"
    using ih a1 a2 l by auto
  show ?case using p m d bounds ih by (simp add: as h')
qed

lemma allocArray_spec:
  assumes b: "builds f rd"
    and st: "stable rd"
    and a: "allocArray f (Some vs) h = (x, h')"
  shows "\<exists>ca as. x = Some ca \<and> distinct as \<and> take (length h) h' = h \<and>
     (\<forall>lo \<le> length h. objectsAt lo h' ca = Some as \<and> mapM (rd lo h') as = Some vs)"
proof -
  obtain as h1 where l: "allocList f vs h = (as, h1)" by (cases "allocList f vs h")
  with a have x: "x = Some (length h1)" and h': "h' = h1 @ [Objects as]"
    by (simp_all add: allocArray_def alloc_def)
  note s = allocList_spec [OF b st l]
  have p1: "take (length h) h1 = h" using s by blast
  then have len: "length h \<le> length h1" by (rule prefix_length)
  have p: "take (length h) h' = h" using p1 len by (simp add: h')
  have "objectsAt lo h' (length h1) = Some as \<and> mapM (rd lo h') as = Some vs" if "lo \<le> length h" for lo
  proof -
    have "mapM (rd lo h1) as = Some vs" using s that by blast
    then have "mapM (rd lo h') as = Some vs"
      by (rule mapM_mono) (erule stableD [OF st], simp add: h')
    moreover have "objectsAt lo h' (length h1) = Some as"
      using that len by (simp add: objectsAt_Some h' cellAt_alloc)
    ultimately show ?thesis by blast
  qed
  with x p s show ?thesis by blast
qed

lemma builds_array:
  assumes b: "builds f rd"
    and st: "stable rd"
  shows "buildsOpt (allocArray f) (readArray rd)"
  unfolding buildsOpt_def
proof (intro allI impI)
  fix v h x h'
  assume a: "allocArray f v h = (x, h')"
  show "take (length h) h' = h \<and> (\<forall>lo\<le>length h. readArray rd lo h' x = Some v)"
  proof (cases v)
    case None
    with a show ?thesis by (simp add: allocArray_def readArray_def)
  next
    case (Some vs)
    with allocArray_spec [OF b st] a show ?thesis
      unfolding readArray_Some by blast
  qed
qed

lemmas builds_notes = builds_array [OF builds_note stable_note]
lemmas builds_responses = builds_array [OF builds_response stable_response]
lemmas builds_histories = builds_array [OF builds_history stable_history]


lemma readArray_stable:
  assumes "stable rd" and "readArray rd lo h x = Some v" and "take (length h) h' = h"
  shows "readArray rd lo h' x = Some v"
  using assms(2) evolves_prefix [OF assms(3)]
  by (rule readArray_evolves) (rule stableD [OF assms(1) _ assms(3)])

lemma readFlagsMap_prefix:
  "readFlagsMap lo h x = Some v \<Longrightarrow> take (length h) h' = h \<Longrightarrow> readFlagsMap lo h' x = Some v"
  by (blast intro: readFlagsMap_evolves evolves_prefix)

lemma readOverrides_prefix:
  "readOverrides lo h x = Some v \<Longrightarrow> take (length h) h' = h \<Longrightarrow> readOverrides lo h' x = Some v"
  by (blast intro: readOverrides_evolves evolves_prefix)

lemma builds_concern: "builds allocConcern readConcern"
  unfolding builds_def
proof (intro allI impI)
  fix c :: concern and h a h'
  assume a: "allocConcern c h = (a, h')"
  obtain e h1 where s1: "allocStrings (evidence c) h = (e, h1)" by (cases "allocStrings (evidence c) h")
  obtain ns h2 where s2: "allocArray allocNote (concern_notes c) h1 = (ns, h2)"
    by (cases "allocArray allocNote (concern_notes c) h1")
  obtain rs h3 where s3: "allocArray allocResponse (responses c) h2 = (rs, h3)"
    by (cases "allocArray allocResponse (responses c) h2")
  obtain at h4 where s4: "allocStrings (attachments c) h3 = (at, h4)"
    by (cases "allocStrings (attachments c) h3")
  from a s1 s2 s3 s4 have a': "a = length h4" and h': "h' = h4 @ [ConcernObj (concernWith c e ns rs at)]"
    by (simp_all add: allocConcern_def alloc_def)
  have p1: "take (length h) h1 = h" using builds_strings s1 by (rule buildsOptD)
  have p2: "take (length h1) h2 = h1" using builds_notes s2 by (rule buildsOptD)
  have p3: "take (length h2) h3 = h2" using builds_responses s3 by (rule buildsOptD)
  have p4: "take (length h3) h4 = h3" using builds_strings s4 by (rule buildsOptD)
  have p5: "take (length h4) h' = h4" by (simp add: h')
  have q4: "take (length h3) h' = h3" using p4 p5 by (rule prefix_trans)
  have q3: "take (length h2) h' = h2" using p3 q4 by (rule prefix_trans)
  have q2: "take (length h1) h' = h1" using p2 q3 by (rule prefix_trans)
  have q1: "take (length h) h' = h" using p1 q2 by (rule prefix_trans)
  have l: "length h \<le> length h1" "length h1 \<le> length h2" "length h2 \<le> length h3" "length h3 \<le> length h4"
    using p1 p2 p3 p4 by (simp_all add: prefix_length)
  have rd: "readConcern lo h' a = Some c" if lo: "lo \<le> length h" for lo
  proof -
    have "readStrings lo h1 e = Some (evidence c)" using builds_strings s1 lo by (rule buildsOptD)
    then have r1: "readStrings lo h' e = Some (evidence c)" using q2 by (rule readStrings_prefix)
    have "lo \<le> length h1" using lo l by simp
    with builds_notes s2 have "readArray readNote lo h2 ns = Some (concern_notes c)" by (rule buildsOptD)
    with stable_note have r2: "readArray readNote lo h' ns = Some (concern_notes c)"
      using q3 by (rule readArray_stable)
    have "lo \<le> length h2" using lo l by simp
    with builds_responses s3 have "readArray readResponse lo h3 rs = Some (responses c)" by (rule buildsOptD)
    with stable_response have r3: "readArray readResponse lo h' rs = Some (responses c)"
      using q4 by (rule readArray_stable)
    have "lo \<le> length h3" using lo l by simp
    with builds_strings s4 have "readStrings lo h4 at = Some (attachments c)" by (rule buildsOptD)
    then have r4: "readStrings lo h' at = Some (attachments c)" using p5 by (rule readStrings_prefix)
    have "concernAt lo h' a = Some (concernWith c e ns rs at)"
      using lo l by (simp add: concernAt_Some a' h' cellAt_alloc)
    with r1 r2 r3 r4 show ?thesis by (simp add: readConcern_Some concernWith_simps)
  qed
  show "take (length h) h' = h \<and> length h \<le> a \<and> a < length h' \<and> (\<forall>lo\<le>length h. readConcern lo h' a = Some c)"
    using q1 l rd by (simp add: a' h')
qed

lemma allocFlagsList_spec:
  "allocList allocFlagsEntry m h = (ents, h') \<Longrightarrow>
     take (length h) h' = h \<and> (\<forall>lo \<le> length h. mapM (readFlagsEntry lo h') ents = Some m)"
proof (induction m arbitrary: h ents h')
  case Nil
  then show ?case by simp
next
  case (Cons kf m)
  have f: "allocFlagsEntry kf h = ((fst kf, length h), h @ [FlagsObj (snd kf)])"
    by (simp add: allocFlagsEntry_def alloc_def)
  obtain ents' h2 where r: "allocList allocFlagsEntry m (h @ [FlagsObj (snd kf)]) = (ents', h2)"
    by (cases "allocList allocFlagsEntry m (h @ [FlagsObj (snd kf)])")
  from Cons.prems f r have e: "ents = (fst kf, length h) # ents'" and h': "h' = h2"
    by simp_all
  note ih = Cons.IH [OF r]
  have p2: "take (length (h @ [FlagsObj (snd kf)])) h2 = h @ [FlagsObj (snd kf)]" using ih by blast
  have p: "take (length h) h2 = h" using prefix_append p2 by (rule prefix_trans)
  have "mapM (readFlagsEntry lo h2) ((fst kf, length h) # ents') = Some (kf # m)" if "lo \<le> length h" for lo
  proof -
    have "readFlagsEntry lo (h @ [FlagsObj (snd kf)]) (fst kf, length h) = Some kf"
      using that by (simp add: readFlagsEntry_Some cellAt_alloc)
    then have "readFlagsEntry lo h2 (fst kf, length h) = Some kf" using p2 by (rule readFlagsEntry_prefix)
    moreover have "mapM (readFlagsEntry lo h2) ents' = Some m" using ih that by simp
    ultimately show ?thesis by simp
  qed
  with p show ?case by (simp add: e h')
qed

lemma builds_flagsMap: "buildsOpt allocFlagsMap readFlagsMap"
  unfolding buildsOpt_def
proof (intro allI impI)
  fix v h x h'
  assume a: "allocFlagsMap v h = (x, h')"
  show "take (length h) h' = h \<and> (\<forall>lo\<le>length h. readFlagsMap lo h' x = Some v)"
  proof (cases v)
    case None
    with a show ?thesis by (simp add: allocFlagsMap_def readFlagsMap_def)
  next
    case (Some m)
    obtain ents h1 where l: "allocList allocFlagsEntry m h = (ents, h1)"
      by (cases "allocList allocFlagsEntry m h")
    with a Some have x: "x = Some (length h1)" and h': "h' = h1 @ [FlagsMapObj ents]"
      by (simp_all add: allocFlagsMap_def alloc_def)
    note s = allocFlagsList_spec [OF l]
    have p1: "take (length h) h1 = h" using s by blast
    then have len: "length h \<le> length h1" by (rule prefix_length)
    have p: "take (length h) h' = h" using p1 len by (simp add: h')
    have "readFlagsMap lo h' x = Some v" if "lo \<le> length h" for lo
    proof -
      have "mapM (readFlagsEntry lo h1) ents = Some m" using s that by blast
      then have "mapM (readFlagsEntry lo h') ents = Some m"
        by (rule mapM_mono) (erule readFlagsEntry_prefix, simp add: h')
      moreover have "flagsMapAt lo h' (length h1) = Some ents"
        using that len by (simp add: flagsMapAt_Some h' cellAt_alloc)
      ultimately show ?thesis by (simp add: readFlagsMap_Some x Some)
    qed
    with p show ?thesis by blast
  qed
qed

lemma builds_overrides: "buildsOpt allocOverrides readOverrides"
  unfolding buildsOpt_def
proof (intro allI impI)
  fix v :: "overrides option" and h x h'
  assume a: "allocOverrides v h = (x, h')"
  show "take (length h) h' = h \<and> (\<forall>lo\<le>length h. readOverrides lo h' x = Some v)"
  proof (cases v)
    case None
    with a show ?thesis by (simp add: allocOverrides_def readOverrides_def)
  next
    case (Some ov)
    obtain m h1 where s1: "allocFlagsMap (ov_concerns ov) h = (m, h1)"
      by (cases "allocFlagsMap (ov_concerns ov) h")
    obtain s h2 where s2: "allocStrings (safeAttachments ov) h1 = (s, h2)"
      by (cases "allocStrings (safeAttachments ov) h1")
    from a Some s1 s2 have x: "x = Some (length h2)" and h': "h' = h2 @ [OverridesObj (overridesWith ov m s)]"
      by (simp_all add: allocOverrides_def alloc_def)
    have p1: "take (length h) h1 = h" using builds_flagsMap s1 by (rule buildsOptD)
    have p2: "take (length h1) h2 = h1" using builds_strings s2 by (rule buildsOptD)
    have p3: "take (length h2) h' = h2" by (simp add: h')
    have q2: "take (length h1) h' = h1" using p2 p3 by (rule prefix_trans)
    have q1: "take (length h) h' = h" using p1 q2 by (rule prefix_trans)
    have l: "length h \<le> length h1" "length h1 \<le> length h2" using p1 p2 by (simp_all add: prefix_length)
    have "readOverrides lo h' x = Some v" if lo: "lo \<le> length h" for lo
    proof -
      have "readFlagsMap lo h1 m = Some (ov_concerns ov)" using builds_flagsMap s1 lo by (rule buildsOptD)
      then have r1: "readFlagsMap lo h' m = Some (ov_concerns ov)" using q2 by (rule readFlagsMap_prefix)
      have "lo \<le> length h1" using lo l by simp
      with builds_strings s2 have "readStrings lo h2 s = Some (safeAttachments ov)" by (rule buildsOptD)
      then have r2: "readStrings lo h' s = Some (safeAttachments ov)" using p3 by (rule readStrings_prefix)
      have "overridesAt lo h' (length h2) = Some (overridesWith ov m s)"
        using lo l by (simp add: overridesAt_Some h' cellAt_alloc)
      with r1 r2 show ?thesis by (simp add: readOverrides_Some x Some overridesWith_simps)
    qed
    with q1 show ?thesis by blast
  qed
qed

text \<open>
  The copy built by \<open>allocComplaint\<close>: its root cell, the arrays it refers to, and the
  addresses of its concerns, which are pairwise different and all new.
\<close>

lemma allocConcerns_spec:
  assumes a: "allocArray allocConcern v h = (x, h')"
  shows "take (length h) h' = h \<and>
    (\<forall>lo \<le> length h. readArray readConcern lo h' x = Some v) \<and>
    (\<exists>as. distinct as \<and> objectsOr h' x = Some as \<and> (\<forall>lo \<le> length h. mapM (readConcern lo h') as = Some (listOf v)) \<and>
       (\<forall>a \<in> set as. length h \<le> a))"
proof (cases v)
  case None
  with a show ?thesis by (simp add: allocArray_def readArray_def objectsOr_def listOf_def)
next
  case (Some vs)
  obtain as h1 where l: "allocList allocConcern vs h = (as, h1)" by (cases "allocList allocConcern vs h")
  with a Some have x: "x = Some (length h1)" and h': "h' = h1 @ [Objects as]"
    by (simp_all add: allocArray_def alloc_def)
  note s = allocList_spec [OF builds_concern stable_concern l]
  have p1: "take (length h) h1 = h" using s by blast
  then have len: "length h \<le> length h1" by (rule prefix_length)
  have p: "take (length h) h' = h" using p1 len by (simp add: h')
  have m: "mapM (readConcern lo h') as = Some vs" if "lo \<le> length h" for lo
  proof -
    have "mapM (readConcern lo h1) as = Some vs" using s that by blast
    then show ?thesis by (rule mapM_mono) (erule readConcern_prefix, simp add: h')
  qed
  have o: "objectsAt lo h' (length h1) = Some as" if "lo \<le> length h" for lo
    using that len by (simp add: objectsAt_Some h' cellAt_alloc)
  have r: "readArray readConcern lo h' x = Some v" if "lo \<le> length h" for lo
    using m [OF that] o [OF that] by (simp add: readArray_Some x Some)
  have "objectsOr h' x = Some as" using o [of 0] by (simp add: objectsOr_def x)
  moreover have "distinct as" and "\<forall>a \<in> set as. length h \<le> a" using s by blast+
  ultimately show ?thesis using p m r by (auto simp: Some listOf_def)
qed

lemma assigns_refl: "assigns S h h"
  by (simp add: assigns_def evolves_refl)

lemma assignsD:
  assumes "assigns S h h'"
  shows "evolves h h'" and "x < length h \<Longrightarrow> x \<notin> S \<Longrightarrow> h' ! x = h ! x"
  using assms unfolding assigns_def by blast+

lemma assigns_trans:
  assumes a: "assigns S h1 h2" and b: "assigns S h2 h3"
  shows "assigns S h1 h3"
proof -
  have e: "evolves h1 h3" using assignsD(1) [OF a] assignsD(1) [OF b] by (rule evolves_trans)
  have l: "length h1 \<le> length h2" using assignsD(1) [OF a] by (rule evolves_length)
  have "h3 ! x = h1 ! x" if "x < length h1" "x \<notin> S" for x
  proof -
    have "x < length h2" using that l by simp
    then have "h3 ! x = h2 ! x" using that by (simp add: assignsD(2) [OF b])
    also have "h2 ! x = h1 ! x" using that by (simp add: assignsD(2) [OF a])
    finally show ?thesis .
  qed
  with e show ?thesis unfolding assigns_def by blast
qed

lemma assigns_prefix: "take (length h) h' = h \<Longrightarrow> assigns S h h'"
  unfolding assigns_def by (simp add: evolves_prefix prefix_nth)

lemma assigns_concern: "h ! a = ConcernObj c \<Longrightarrow> a \<in> S \<Longrightarrow> assigns S h (h[a := ConcernObj c'])"
proof -
  assume c: "h ! a = ConcernObj c" and a: "a \<in> S"
  have "h[a := ConcernObj c'] ! x = h ! x" if "x \<notin> S" for x
  proof -
    from that a have "a \<noteq> x" by blast
    then show ?thesis by simp
  qed
  with evolves_concern [OF c] show ?thesis unfolding assigns_def by blast
qed

lemma assigns_mono: "assigns S h h' \<Longrightarrow> S \<subseteq> T \<Longrightarrow> assigns T h h'"
  unfolding assigns_def by blast

lemma readNote_bounds: "readNote lo h a = Some v \<Longrightarrow> lo \<le> a \<and> a < length h"
  unfolding readNote_Some noteAt_Some using cellAt_bounds by blast

lemma readResponse_bounds: "readResponse lo h a = Some v \<Longrightarrow> lo \<le> a \<and> a < length h"
  unfolding readResponse_Some responseAt_Some using cellAt_bounds by blast

lemma readConcern_bounds: "readConcern lo h a = Some v \<Longrightarrow> lo \<le> a \<and> a < length h"
  unfolding readConcern_Some concernAt_Some using cellAt_bounds by blast

lemma cellAt_alloc2: "lo \<le> length h \<Longrightarrow> cellAt lo (h @ [c, d]) (length h) = Some c"
  "lo \<le> length h \<Longrightarrow> cellAt lo (h @ [c, d]) (Suc (length h)) = Some d"
  by (simp_all add: cellAt_def nth_append)

lemma redactNote_store_spec:
  assumes r: "readNote lo h a = Some nv"
  shows "\<exists>b h'. redactNote_store cov h a = Some (b, h') \<and> take (length h) h' = h \<and>
           readNote lo h' b = Some (redactNote cov nv)"
proof -
  from r obtain n u where n: "noteAt lo h a = Some n" and u: "readStrings lo h (n_urls n) = Some u"
    and nv: "nv = noteWith n u" unfolding readNote_Some by blast
  have lo: "lo \<le> length h" using readNote_bounds [OF r] by simp
  define us where "us = map (\<lambda>u. if notFalse cov ''notesUrls'' then maskText (Some u) else u) (listOf u)"
  define n' where "n' = n\<lparr>n_text := (if notFalse cov ''notesText'' then Some (maskText (n_text n)) else n_text n),
                          n_urls := Some (length h)\<rparr>"
  define h' where "h' = h @ [Strings us, NoteObj n']"
  have s: "redactNote_store cov h a = Some (Suc (length h), h')"
    using noteAt_lo [OF n] readStrings_lo [OF u]
    by (simp add: redactNote_store_def alloc_def us_def n'_def h'_def)
  have "noteAt lo h' (Suc (length h)) = Some n'" using lo by (simp add: noteAt_Some h'_def cellAt_alloc2)
  moreover have "readStrings lo h' (n_urls n') = Some (Some us)"
    using lo by (simp add: readStrings_Some stringsAt_Some h'_def cellAt_alloc2 n'_def)
  ultimately have "readNote lo h' (Suc (length h)) = Some (noteWith n' (Some us))"
    unfolding readNote_Some by blast
  moreover have "noteWith n' (Some us) = redactNote cov nv"
    by (simp add: noteWith_def n'_def us_def redactNote_def nv)
  moreover have "take (length h) h' = h" by (simp add: h'_def)
  ultimately show ?thesis using s by simp
qed

lemma redactResponse_store_spec:
  assumes r: "readResponse lo h a = Some rv"
  shows "\<exists>b h'. redactResponse_store cov h a = Some (b, h') \<and> take (length h) h' = h \<and>
           readResponse lo h' b = Some (redactResponse cov rv)"
proof -
  from r obtain n u at where n: "responseAt lo h a = Some n" and u: "readStrings lo h (r_urls n) = Some u"
    and at: "readStrings lo h (r_attachments n) = Some at"
    and rv: "rv = responseWith n u at" unfolding readResponse_Some by blast
  have lo: "lo \<le> length h" using readResponse_bounds [OF r] by simp
  define us where "us = map (\<lambda>u. if notFalse cov ''responsesUrls'' then maskText (Some u) else u) (listOf u)"
  define n' where "n' = n\<lparr>r_decisionMaker := (if notFalse cov ''responsesDecision''
                                              then Some (maskText (r_decisionMaker n)) else r_decisionMaker n),
                        r_text := (if notFalse cov ''responsesText'' then Some (maskText (r_text n)) else r_text n),
                        r_urls := Some (length h)\<rparr>"
  define h' where "h' = h @ [Strings us, ResponseObj n']"
  have s: "redactResponse_store cov h a = Some (Suc (length h), h')"
    using responseAt_lo [OF n] readStrings_lo [OF u]
    by (simp add: redactResponse_store_def alloc_def us_def n'_def h'_def)
  have p: "take (length h) h' = h" by (simp add: h'_def)
  have "responseAt lo h' (Suc (length h)) = Some n'" using lo by (simp add: responseAt_Some h'_def cellAt_alloc2)
  moreover have "readStrings lo h' (r_urls n') = Some (Some us)"
    using lo by (simp add: readStrings_Some stringsAt_Some h'_def cellAt_alloc2 n'_def)
  moreover have "readStrings lo h' (r_attachments n') = Some at"
    using readStrings_prefix [OF at p] by (simp add: n'_def)
  ultimately have "readResponse lo h' (Suc (length h)) = Some (responseWith n' (Some us) at)"
    unfolding readResponse_Some by blast
  moreover have "responseWith n' (Some us) at = redactResponse cov rv"
    by (simp add: responseWith_def n'_def us_def redactResponse_def rv)
  ultimately show ?thesis using s p by simp
qed

lemma mapStore_spec:
  assumes step: "\<forall>h a v. rd lo h a = Some v \<longrightarrow>
      (\<exists>b h'. f h a = Some (b, h') \<and> take (length h) h' = h \<and> rd lo h' b = Some (g v))"
    and st: "stable rd"
  shows "mapM (rd lo h) as = Some vs \<Longrightarrow>
    \<exists>bs h'. mapStore f as h = Some (bs, h') \<and> take (length h) h' = h \<and> mapM (rd lo h') bs = Some (map g vs)"
proof (induction as arbitrary: h vs)
  case Nil
  then show ?case by simp
next
  case (Cons a as)
  from Cons.prems obtain v vs' where v: "rd lo h a = Some v" and m: "mapM (rd lo h) as = Some vs'"
    and vs: "vs = v # vs'" by (auto split: option.splits)
  from step v obtain b h1 where f: "f h a = Some (b, h1)" and p1: "take (length h) h1 = h"
    and b: "rd lo h1 b = Some (g v)" by blast
  have "mapM (rd lo h1) as = Some vs'"
    using m by (rule mapM_mono) (erule stableD [OF st], rule p1)
  from Cons.IH [OF this] obtain bs h2 where r: "mapStore f as h1 = Some (bs, h2)"
    and p2: "take (length h1) h2 = h1" and bs: "mapM (rd lo h2) bs = Some (map g vs')" by blast
  have "rd lo h2 b = Some (g v)" using st b p2 by (rule stableD)
  with bs have "mapM (rd lo h2) (b # bs) = Some (map g vs)" by (simp add: vs)
  moreover have "take (length h) h2 = h" using p1 p2 by (rule prefix_trans)
  moreover have "mapStore f (a # as) h = Some (b # bs, h2)" using f r by simp
  ultimately show ?case by blast
qed

lemma readArray_objectsOr:
  assumes "readArray rd lo h x = Some v"
  shows "\<exists>as. objectsOr h x = Some as \<and> mapM (rd lo h) as = Some (listOf v)"
  using assms unfolding readArray_Some
  by (auto simp: objectsOr_def listOf_def dest: objectsAt_lo)

lemma writeConcern_read:
  assumes c: "concernAt lo h ca = Some c"
    and e: "readStrings lo h (evidence c') = Some e"
    and ns: "readArray readNote lo h (concern_notes c') = Some ns"
    and rs: "readArray readResponse lo h (responses c') = Some rs"
    and at: "readStrings lo h (attachments c') = Some at"
  shows "readConcern lo (h[ca := ConcernObj c']) ca = Some (concernWith c' e ns rs at)"
proof -
  from c have b: "lo \<le> ca" "ca < length h" "h ! ca = ConcernObj c"
    unfolding concernAt_Some using cellAt_bounds by blast+
  have ev: "evolves h (h[ca := ConcernObj c'])" using b(3) by (rule evolves_concern)
  have "concernAt lo (h[ca := ConcernObj c']) ca = Some c'"
    using b by (simp add: concernAt_Some cellAt_def)
  with readStrings_evolves [OF e ev] readNotes_evolves [OF ns ev] readResponses_evolves [OF rs ev]
    readStrings_evolves [OF at ev]
  show ?thesis unfolding readConcern_Some by blast
qed

lemma assignConcern_Some:
  "concernAt lo h ca = Some c \<Longrightarrow> assignConcern h ca upd = Some (h[ca := ConcernObj (upd c)])"
  by (simp add: assignConcern_def concernAt_lo)

lemma concernAt_prefix:
  assumes "concernAt lo h a = Some c" and "take (length h) h' = h"
  shows "concernAt lo h' a = Some c"
proof -
  from assms(1) have "a < length h" unfolding concernAt_Some using cellAt_bounds by blast
  then have "h' ! a = h ! a" using assms(2) by (simp add: prefix_nth)
  with assms(1) evolves_prefix [OF assms(2)] show ?thesis by (rule concernAt_same)
qed

lemma getConcern_concernWith: "getConcern k (concernWith c e ns rs at) = getConcern k c"
  by (simp add: getConcern_def concernWith_def)

lemma setConcern_concernWith:
  "setConcern k v (concernWith c e ns rs at) = concernWith (setConcern k v c) e ns rs at"
  by (simp add: setConcern_def concernWith_def)

lemma redactFields_concernWith:
  "concernWith (redactFields getConcern setConcern c ks) e ns rs at
     = redactFields getConcern setConcern (concernWith c e ns rs at) ks"
  unfolding redactFields_def
  by (induction ks arbitrary: c) (simp_all add: getConcern_concernWith setConcern_concernWith split: option.splits)

lemma redactFields_concern_children:
  "evidence (redactFields getConcern setConcern c ks) = evidence c"
  "concern_notes (redactFields getConcern setConcern c ks) = concern_notes c"
  "responses (redactFields getConcern setConcern c ks) = responses c"
  "attachments (redactFields getConcern setConcern c ks) = attachments c"
  "concern_id (redactFields getConcern setConcern c ks) = concern_id c"
  by (rule redactFields_frame, simp add: setConcern_def)+

lemma redactConcernFields_spec:
  assumes r: "readConcern lo h ca = Some cv"
  shows "\<exists>h'. redactConcernFields cov h ca = Some h' \<and> assigns {ca} h h' \<and>
     readConcern lo h' ca = Some (redactFields getConcern setConcern cv (filter (notFalse cov) concernKeys))"
proof -
  from r obtain c e ns rs at where c: "concernAt lo h ca = Some c"
    and e: "readStrings lo h (evidence c) = Some e"
    and ns: "readArray readNote lo h (concern_notes c) = Some ns"
    and rs: "readArray readResponse lo h (responses c) = Some rs"
    and at: "readStrings lo h (attachments c) = Some at"
    and cv: "cv = concernWith c e ns rs at" unfolding readConcern_Some by blast
  define c' where "c' = redactFields getConcern setConcern c (filter (notFalse cov) concernKeys)"
  have s: "redactConcernFields cov h ca = Some (h[ca := ConcernObj c'])"
    unfolding redactConcernFields_def c'_def by (rule assignConcern_Some) (rule c)
  have hc: "h ! ca = ConcernObj c" using c unfolding concernAt_Some using cellAt_bounds by blast
  have a: "assigns {ca} h (h[ca := ConcernObj c'])" using hc by (rule assigns_concern) simp
  have "readConcern lo (h[ca := ConcernObj c']) ca = Some (concernWith c' e ns rs at)"
    using c by (rule writeConcern_read) (simp_all add: c'_def redactFields_concern_children e ns rs at)
  then show ?thesis using s a by (simp add: c'_def cv redactFields_concernWith)
qed

lemma assignEvidence_spec:
  assumes r: "readConcern lo h ca = Some cv"
  shows "\<exists>h'. assignEvidence h ca = Some h' \<and> assigns {ca} h h' \<and>
     readConcern lo h' ca = Some (cv\<lparr>evidence := Some (map (\<lambda>e. maskText (Some e)) (listOf (evidence cv)))\<rparr>)"
proof -
  from r obtain c e ns rs at where c: "concernAt lo h ca = Some c"
    and e: "readStrings lo h (evidence c) = Some e"
    and ns: "readArray readNote lo h (concern_notes c) = Some ns"
    and rs: "readArray readResponse lo h (responses c) = Some rs"
    and at: "readStrings lo h (attachments c) = Some at"
    and cv: "cv = concernWith c e ns rs at" unfolding readConcern_Some by blast
  have lo: "lo \<le> length h" using readConcern_bounds [OF r] by simp
  define es where "es = map (\<lambda>e. maskText (Some e)) (listOf e)"
  define h1 where "h1 = h @ [Strings es]"
  define c' where "c' = c\<lparr>evidence := Some (length h)\<rparr>"
  have p: "take (length h) h1 = h" by (simp add: h1_def)
  have c1: "concernAt lo h1 ca = Some c" using c p by (rule concernAt_prefix)
  have "assignConcern h1 ca (\<lambda>c. c\<lparr>evidence := Some (length h)\<rparr>) = Some (h1[ca := ConcernObj c'])"
    unfolding c'_def by (rule assignConcern_Some) (rule c1)
  then have s: "assignEvidence h ca = Some (h1[ca := ConcernObj c'])"
    using concernAt_lo [OF c] readStrings_lo [OF e]
    by (simp add: assignEvidence_def alloc_def es_def h1_def)
  have hc: "h1 ! ca = ConcernObj c" using c1 unfolding concernAt_Some using cellAt_bounds by blast
  have a: "assigns {ca} h (h1[ca := ConcernObj c'])"
    using assigns_prefix [OF p] assigns_concern [OF hc] by (rule assigns_trans) simp
  have e': "readStrings lo h1 (evidence c') = Some (Some es)"
    using lo by (simp add: c'_def readStrings_Some stringsAt_Some h1_def cellAt_alloc)
  have "readConcern lo (h1[ca := ConcernObj c']) ca = Some (concernWith c' (Some es) ns rs at)"
    using c1 e'
  proof (rule writeConcern_read)
    show "readArray readNote lo h1 (concern_notes c') = Some ns"
      using readArray_stable [OF stable_note ns p] by (simp add: c'_def)
    show "readArray readResponse lo h1 (responses c') = Some rs"
      using readArray_stable [OF stable_response rs p] by (simp add: c'_def)
    show "readStrings lo h1 (attachments c') = Some at"
      using readStrings_prefix [OF at p] by (simp add: c'_def)
  qed
  moreover have "concernWith c' (Some es) ns rs at
      = cv\<lparr>evidence := Some (map (\<lambda>e. maskText (Some e)) (listOf (evidence cv)))\<rparr>"
    by (simp add: cv concernWith_def es_def c'_def)
  ultimately show ?thesis using s a by simp
qed

lemma assignNotes_spec:
  assumes r: "readConcern lo h ca = Some cv"
  shows "\<exists>h'. assignNotes cov h ca = Some h' \<and> assigns {ca} h h' \<and>
     readConcern lo h' ca = Some (cv\<lparr>concern_notes := Some (map (redactNote cov) (listOf (concern_notes cv)))\<rparr>)"
proof -
  from r obtain c e ns rs at where c: "concernAt lo h ca = Some c"
    and e: "readStrings lo h (evidence c) = Some e"
    and ns: "readArray readNote lo h (concern_notes c) = Some ns"
    and rs: "readArray readResponse lo h (responses c) = Some rs"
    and at: "readStrings lo h (attachments c) = Some at"
    and cv: "cv = concernWith c e ns rs at" unfolding readConcern_Some by blast
  have lo: "lo \<le> length h" using readConcern_bounds [OF r] by simp
  from readArray_objectsOr [OF ns] obtain as where as: "objectsOr h (concern_notes c) = Some as"
    and m: "mapM (readNote lo h) as = Some (listOf ns)" by blast
  have "\<forall>h a v. readNote lo h a = Some v \<longrightarrow>
      (\<exists>b h'. redactNote_store cov h a = Some (b, h') \<and> take (length h) h' = h \<and>
         readNote lo h' b = Some (redactNote cov v))"
    using redactNote_store_spec by blast
  from mapStore_spec [OF this stable_note m] obtain bs h0
    where ms: "mapStore (redactNote_store cov) as h = Some (bs, h0)"
      and p0: "take (length h) h0 = h"
      and bs: "mapM (readNote lo h0) bs = Some (map (redactNote cov) (listOf ns))" by blast
  define h1 where "h1 = h0 @ [Objects bs]"
  define c' where "c' = c\<lparr>concern_notes := Some (length h0)\<rparr>"
  have l0: "length h \<le> length h0" using p0 by (rule prefix_length)
  have p01: "take (length h0) h1 = h0" by (simp add: h1_def)
  have p: "take (length h) h1 = h" using p0 p01 by (rule prefix_trans)
  have c1: "concernAt lo h1 ca = Some c" using c p by (rule concernAt_prefix)
  have "assignConcern h1 ca (\<lambda>c. c\<lparr>concern_notes := Some (length h0)\<rparr>) = Some (h1[ca := ConcernObj c'])"
    unfolding c'_def by (rule assignConcern_Some) (rule c1)
  then have s: "assignNotes cov h ca = Some (h1[ca := ConcernObj c'])"
    using concernAt_lo [OF c] as ms
    by (simp add: assignNotes_def alloc_def h1_def)
  have hc: "h1 ! ca = ConcernObj c" using c1 unfolding concernAt_Some using cellAt_bounds by blast
  have a: "assigns {ca} h (h1[ca := ConcernObj c'])"
    using assigns_prefix [OF p] assigns_concern [OF hc] by (rule assigns_trans) simp
  have "mapM (readNote lo h1) bs = Some (map (redactNote cov) (listOf ns))"
    using bs by (rule mapM_mono) (erule readNote_prefix, rule p01)
  moreover have "objectsAt lo h1 (length h0) = Some bs"
    using lo l0 by (simp add: objectsAt_Some h1_def cellAt_alloc)
  ultimately have n': "readArray readNote lo h1 (concern_notes c') = Some (Some (map (redactNote cov) (listOf ns)))"
    by (simp add: readArray_Some c'_def)
  have "readConcern lo (h1[ca := ConcernObj c']) ca
      = Some (concernWith c' e (Some (map (redactNote cov) (listOf ns))) rs at)"
    using c1 _ n'
  proof (rule writeConcern_read)
    show "readStrings lo h1 (evidence c') = Some e"
      using readStrings_prefix [OF e p] by (simp add: c'_def)
    show "readArray readResponse lo h1 (responses c') = Some rs"
      using readArray_stable [OF stable_response rs p] by (simp add: c'_def)
    show "readStrings lo h1 (attachments c') = Some at"
      using readStrings_prefix [OF at p] by (simp add: c'_def)
  qed
  moreover have "concernWith c' e (Some (map (redactNote cov) (listOf ns))) rs at
      = cv\<lparr>concern_notes := Some (map (redactNote cov) (listOf (concern_notes cv)))\<rparr>"
    by (simp add: cv concernWith_def c'_def)
  ultimately show ?thesis using s a by simp
qed

lemma assignResponses_spec:
  assumes r: "readConcern lo h ca = Some cv"
  shows "\<exists>h'. assignResponses cov h ca = Some h' \<and> assigns {ca} h h' \<and>
     readConcern lo h' ca = Some (cv\<lparr>responses := Some (map (redactResponse cov) (listOf (responses cv)))\<rparr>)"
proof -
  from r obtain c e ns rs at where c: "concernAt lo h ca = Some c"
    and e: "readStrings lo h (evidence c) = Some e"
    and ns: "readArray readNote lo h (concern_notes c) = Some ns"
    and rs: "readArray readResponse lo h (responses c) = Some rs"
    and at: "readStrings lo h (attachments c) = Some at"
    and cv: "cv = concernWith c e ns rs at" unfolding readConcern_Some by blast
  have lo: "lo \<le> length h" using readConcern_bounds [OF r] by simp
  from readArray_objectsOr [OF rs] obtain as where as: "objectsOr h (responses c) = Some as"
    and m: "mapM (readResponse lo h) as = Some (listOf rs)" by blast
  have "\<forall>h a v. readResponse lo h a = Some v \<longrightarrow>
      (\<exists>b h'. redactResponse_store cov h a = Some (b, h') \<and> take (length h) h' = h \<and>
         readResponse lo h' b = Some (redactResponse cov v))"
    using redactResponse_store_spec by blast
  from mapStore_spec [OF this stable_response m] obtain bs h0
    where ms: "mapStore (redactResponse_store cov) as h = Some (bs, h0)"
      and p0: "take (length h) h0 = h"
      and bs: "mapM (readResponse lo h0) bs = Some (map (redactResponse cov) (listOf rs))" by blast
  define h1 where "h1 = h0 @ [Objects bs]"
  define c' where "c' = c\<lparr>responses := Some (length h0)\<rparr>"
  have l0: "length h \<le> length h0" using p0 by (rule prefix_length)
  have p01: "take (length h0) h1 = h0" by (simp add: h1_def)
  have p: "take (length h) h1 = h" using p0 p01 by (rule prefix_trans)
  have c1: "concernAt lo h1 ca = Some c" using c p by (rule concernAt_prefix)
  have "assignConcern h1 ca (\<lambda>c. c\<lparr>responses := Some (length h0)\<rparr>) = Some (h1[ca := ConcernObj c'])"
    unfolding c'_def by (rule assignConcern_Some) (rule c1)
  then have s: "assignResponses cov h ca = Some (h1[ca := ConcernObj c'])"
    using concernAt_lo [OF c] as ms
    by (simp add: assignResponses_def alloc_def h1_def)
  have hc: "h1 ! ca = ConcernObj c" using c1 unfolding concernAt_Some using cellAt_bounds by blast
  have a: "assigns {ca} h (h1[ca := ConcernObj c'])"
    using assigns_prefix [OF p] assigns_concern [OF hc] by (rule assigns_trans) simp
  have "mapM (readResponse lo h1) bs = Some (map (redactResponse cov) (listOf rs))"
    using bs by (rule mapM_mono) (erule readResponse_prefix, rule p01)
  moreover have "objectsAt lo h1 (length h0) = Some bs"
    using lo l0 by (simp add: objectsAt_Some h1_def cellAt_alloc)
  ultimately have n': "readArray readResponse lo h1 (responses c') = Some (Some (map (redactResponse cov) (listOf rs)))"
    by (simp add: readArray_Some c'_def)
  have "readConcern lo (h1[ca := ConcernObj c']) ca
      = Some (concernWith c' e ns (Some (map (redactResponse cov) (listOf rs))) at)"
    using c1 _ _ n'
  proof (rule writeConcern_read)
    show "readStrings lo h1 (evidence c') = Some e"
      using readStrings_prefix [OF e p] by (simp add: c'_def)
    show "readArray readNote lo h1 (concern_notes c') = Some ns"
      using readArray_stable [OF stable_note ns p] by (simp add: c'_def)
    show "readStrings lo h1 (attachments c') = Some at"
      using readStrings_prefix [OF at p] by (simp add: c'_def)
  qed
  moreover have "concernWith c' e ns (Some (map (redactResponse cov) (listOf rs))) at
      = cv\<lparr>responses := Some (map (redactResponse cov) (listOf (responses cv)))\<rparr>"
    by (simp add: cv concernWith_def c'_def)
  ultimately show ?thesis using s a by simp
qed

lemma filterAttachments_spec:
  assumes r: "readConcern lo h ca = Some cv"
  shows "\<exists>h'. filterAttachments overrides h ca = Some h' \<and> assigns {ca} h h' \<and>
     readConcern lo h' ca = Some (case attachments cv of None \<Rightarrow> cv
        | Some keys \<Rightarrow> cv\<lparr>attachments := Some (filter (\<lambda>key. key \<in> set (listOf (safeAttachments overrides))) keys)\<rparr>)"
proof -
  from r obtain c e ns rs at where c: "concernAt lo h ca = Some c"
    and e: "readStrings lo h (evidence c) = Some e"
    and ns: "readArray readNote lo h (concern_notes c) = Some ns"
    and rs: "readArray readResponse lo h (responses c) = Some rs"
    and at: "readStrings lo h (attachments c) = Some at"
    and cv: "cv = concernWith c e ns rs at" unfolding readConcern_Some by blast
  have lo: "lo \<le> length h" using readConcern_bounds [OF r] by simp
  show ?thesis
  proof (cases "attachments c")
    case None
    with at have "at = None" by (simp add: readStrings_Some)
    then have "attachments cv = None" by (simp add: cv concernWith_simps)
    moreover have "filterAttachments overrides h ca = Some h"
      using concernAt_lo [OF c] None by (simp add: filterAttachments_def)
    ultimately show ?thesis using r by (simp add: assigns_refl)
  next
    case (Some aa)
    with at obtain keys where k: "stringsAt lo h aa = Some keys" and at': "at = Some keys"
      by (auto simp: readStrings_Some)
    define ks where "ks = filter (\<lambda>key. key \<in> set (listOf (safeAttachments overrides))) keys"
    define h1 where "h1 = h @ [Strings ks]"
    define c' where "c' = c\<lparr>attachments := Some (length h)\<rparr>"
    have p: "take (length h) h1 = h" by (simp add: h1_def)
    have c1: "concernAt lo h1 ca = Some c" using c p by (rule concernAt_prefix)
    have "assignConcern h1 ca (\<lambda>c. c\<lparr>attachments := Some (length h)\<rparr>) = Some (h1[ca := ConcernObj c'])"
      unfolding c'_def by (rule assignConcern_Some) (rule c1)
    then have s: "filterAttachments overrides h ca = Some (h1[ca := ConcernObj c'])"
      using concernAt_lo [OF c] Some stringsAt_lo [OF k]
      by (simp add: filterAttachments_def alloc_def ks_def h1_def)
    have hc: "h1 ! ca = ConcernObj c" using c1 unfolding concernAt_Some using cellAt_bounds by blast
    have a: "assigns {ca} h (h1[ca := ConcernObj c'])"
      using assigns_prefix [OF p] assigns_concern [OF hc] by (rule assigns_trans) simp
    have a': "readStrings lo h1 (attachments c') = Some (Some ks)"
      using lo by (simp add: c'_def readStrings_Some stringsAt_Some h1_def cellAt_alloc)
    have "readConcern lo (h1[ca := ConcernObj c']) ca = Some (concernWith c' e ns rs (Some ks))"
      using c1 _ _ _ a'
    proof (rule writeConcern_read)
      show "readStrings lo h1 (evidence c') = Some e"
        using readStrings_prefix [OF e p] by (simp add: c'_def)
      show "readArray readNote lo h1 (concern_notes c') = Some ns"
        using readArray_stable [OF stable_note ns p] by (simp add: c'_def)
      show "readArray readResponse lo h1 (responses c') = Some rs"
        using readArray_stable [OF stable_response rs p] by (simp add: c'_def)
    qed
    moreover have "concernWith c' e ns rs (Some ks)
        = (case attachments cv of None \<Rightarrow> cv
           | Some keys \<Rightarrow> cv\<lparr>attachments := Some (filter (\<lambda>key. key \<in> set (listOf (safeAttachments overrides))) keys)\<rparr>)"
      by (simp add: cv at' concernWith_def ks_def c'_def)
    ultimately show ?thesis using s a by simp
  qed
qed

lemma concernKey_concernWith: "concernKey (concernWith c e ns rs at) = concernKey c"
  by (simp add: concernKey_def concernWith_def)

lemma redactConcern_store_spec:
  assumes r: "readConcern lo h ca = Some cv" and ov: "readOverrides 0 h ovaddr = Some ovo"
  shows "\<exists>h'. redactConcern_store ovaddr h ca = Some h' \<and> assigns {ca} h h' \<and>
     readConcern lo h' ca = Some (redactConcern (orEmpty ovo) cv)"
proof -
  from r obtain c e ns rs at where c: "concernAt lo h ca = Some c"
    and cv: "cv = concernWith c e ns rs at" unfolding readConcern_Some by blast
  have ck: "concernKey c = concernKey cv" by (simp add: cv concernKey_concernWith)
  define cov where "cov = concernFlags (orEmpty ovo) (concernKey cv)"
  define v1 where "v1 = redactFields getConcern setConcern cv (filter (notFalse cov) concernKeys)"
  define v2 where "v2 = v1\<lparr>evidence := Some (map (\<lambda>e. maskText (Some e)) (listOf (evidence v1)))\<rparr>"
  define v3 where "v3 = v2\<lparr>concern_notes := Some (map (redactNote cov) (listOf (concern_notes v2)))\<rparr>"
  define v4 where "v4 = v3\<lparr>responses := Some (map (redactResponse cov) (listOf (responses v3)))\<rparr>"
  define v5 where "v5 = (case attachments v4 of None \<Rightarrow> v4
     | Some keys \<Rightarrow> v4\<lparr>attachments := Some (filter (\<lambda>key. key \<in> set (listOf (safeAttachments (orEmpty ovo)))) keys)\<rparr>)"
  from redactConcernFields_spec [OF r, of cov] obtain h1
    where s1: "redactConcernFields cov h ca = Some h1" and a1: "assigns {ca} h h1"
      and r1: "readConcern lo h1 ca = Some v1" unfolding v1_def by blast
  from assignEvidence_spec [OF r1] obtain h2
    where s2: "assignEvidence h1 ca = Some h2" and a2: "assigns {ca} h1 h2"
      and r2: "readConcern lo h2 ca = Some v2" unfolding v2_def by blast
  from assignNotes_spec [OF r2, of cov] obtain h3
    where s3: "assignNotes cov h2 ca = Some h3" and a3: "assigns {ca} h2 h3"
      and r3: "readConcern lo h3 ca = Some v3" unfolding v3_def by blast
  from assignResponses_spec [OF r3, of cov] obtain h4
    where s4: "assignResponses cov h3 ca = Some h4" and a4: "assigns {ca} h3 h4"
      and r4: "readConcern lo h4 ca = Some v4" unfolding v4_def by blast
  from filterAttachments_spec [OF r4, of "orEmpty ovo"] obtain h5
    where s5: "filterAttachments (orEmpty ovo) h4 ca = Some h5" and a5: "assigns {ca} h4 h5"
      and r5: "readConcern lo h5 ca = Some v5" unfolding v5_def by blast
  have s: "redactConcern_store ovaddr h ca = Some h5"
    using concernAt_lo [OF c] ov s1 s2 s3 s4 s5
    by (simp add: redactConcern_store_def Let_def ck cov_def)
  have a: "assigns {ca} h h5"
    using a1 a2 a3 a4 a5 by (blast intro: assigns_trans)
  have "redactConcern (orEmpty ovo) cv = v5"
    unfolding redactConcern_def Let_def v5_def v4_def v3_def v2_def v1_def cov_def by (rule refl)
  with s a r5 show ?thesis by simp
qed

lemma forEachStore_spec:
  "distinct as \<Longrightarrow> mapM (readConcern lo h) as = Some vs \<Longrightarrow> readOverrides 0 h ovaddr = Some ovo \<Longrightarrow>
    \<exists>h'. forEachStore (redactConcern_store ovaddr) as h = Some h' \<and> assigns (set as) h h' \<and>
      mapM (readConcern lo h') as = Some (map (redactConcern (orEmpty ovo)) vs)"
proof (induction as arbitrary: h vs)
  case Nil
  then show ?case by (simp add: assigns_refl)
next
  case (Cons a as)
  from Cons.prems(2) obtain v vs' where v: "readConcern lo h a = Some v"
    and m: "mapM (readConcern lo h) as = Some vs'" and vs: "vs = v # vs'"
    by (auto split: option.splits)
  from Cons.prems(1) have na: "a \<notin> set as" and d: "distinct as" by simp_all
  from redactConcern_store_spec [OF v Cons.prems(3)] obtain h1
    where s1: "redactConcern_store ovaddr h a = Some h1" and a1: "assigns {a} h h1"
      and r1: "readConcern lo h1 a = Some (redactConcern (orEmpty ovo) v)" by blast
  have e1: "evolves h h1" using a1 by (rule assignsD)
  have m1: "mapM (readConcern lo h1) as = Some vs'"
    using m
  proof (rule mapM_mono)
    fix x y
    assume x: "x \<in> set as" and y: "readConcern lo h x = Some y"
    have "x < length h" using readConcern_bounds [OF y] by simp
    moreover have "x \<notin> {a}" using x na by blast
    ultimately have "h1 ! x = h ! x" by (rule assignsD(2) [OF a1])
    with y e1 show "readConcern lo h1 x = Some y" by (rule readConcern_evolves)
  qed
  have o1: "readOverrides 0 h1 ovaddr = Some ovo" using Cons.prems(3) e1 by (rule readOverrides_evolves)
  from Cons.IH [OF d m1 o1] obtain h2
    where s2: "forEachStore (redactConcern_store ovaddr) as h1 = Some h2"
      and a2: "assigns (set as) h1 h2"
      and r2: "mapM (readConcern lo h2) as = Some (map (redactConcern (orEmpty ovo)) vs')" by blast
  have "a < length h1" using readConcern_bounds [OF r1] by simp
  then have "h2 ! a = h1 ! a" using na by (rule assignsD(2) [OF a2])
  with r1 assignsD(1) [OF a2] have "readConcern lo h2 a = Some (redactConcern (orEmpty ovo) v)"
    by (rule readConcern_evolves)
  with r2 have "mapM (readConcern lo h2) (a # as) = Some (map (redactConcern (orEmpty ovo)) vs)"
    by (simp add: vs)
  moreover have "assigns (set (a # as)) h h2"
    using assigns_mono [OF a1] assigns_mono [OF a2] by (rule assigns_trans) auto
  moreover have "forEachStore (redactConcern_store ovaddr) (a # as) h = Some h2" using s1 s2 by simp
  ultimately show ?case by blast
qed

lemma getRoot_complaintWith: "getRoot k (complaintWith c cs ep at hs ov) = getRoot k c"
  by (simp add: getRoot_def complaintWith_def)

lemma complaintWith_updates:
  "complaintWith (c\<lparr>title := v\<rparr>) cs ep at hs ov = (complaintWith c cs ep at hs ov)\<lparr>title := v\<rparr>"
  "complaintWith (c\<lparr>institution := v\<rparr>) cs ep at hs ov = (complaintWith c cs ep at hs ov)\<lparr>institution := v\<rparr>"
  "complaintWith (c\<lparr>contactPerson := v\<rparr>) cs ep at hs ov = (complaintWith c cs ep at hs ov)\<lparr>contactPerson := v\<rparr>"
  "complaintWith (c\<lparr>complaintContent := v\<rparr>) cs ep at hs ov = (complaintWith c cs ep at hs ov)\<lparr>complaintContent := v\<rparr>"
  "complaintWith (c\<lparr>institutionAddress := v\<rparr>) cs ep at hs ov = (complaintWith c cs ep at hs ov)\<lparr>institutionAddress := v\<rparr>"
  "complaintWith (c\<lparr>institutionEmail := v\<rparr>) cs ep at hs ov = (complaintWith c cs ep at hs ov)\<lparr>institutionEmail := v\<rparr>"
  "complaintWith (c\<lparr>status := v\<rparr>) cs ep at hs ov = (complaintWith c cs ep at hs ov)\<lparr>status := v\<rparr>"
  "complaintWith (c\<lparr>passwordHint := v\<rparr>) cs ep at hs ov = (complaintWith c cs ep at hs ov)\<lparr>passwordHint := v\<rparr>"
  "complaintWith (c\<lparr>agreedTerms := v\<rparr>) cs ep at hs ov = (complaintWith c cs ep at hs ov)\<lparr>agreedTerms := v\<rparr>"
  by (simp_all add: complaintWith_def)

lemma setRoot_complaintWith:
  "setRoot k v (complaintWith c cs ep at hs ov) = complaintWith (setRoot k v c) cs ep at hs ov"
  unfolding setRoot_def by (simp add: complaintWith_updates)

lemma redactFields_complaintWith:
  "complaintWith (redactFields getRoot setRoot c ks) cs ep at hs ov
     = redactFields getRoot setRoot (complaintWith c cs ep at hs ov) ks"
  unfolding redactFields_def
  by (induction ks arbitrary: c) (simp_all add: getRoot_complaintWith setRoot_complaintWith split: option.splits)

lemma redactFields_root_children:
  "concerns (redactFields getRoot setRoot c ks) = concerns c"
  "escalationPath (redactFields getRoot setRoot c ks) = escalationPath c"
  "complaint_attachments (redactFields getRoot setRoot c ks) = complaint_attachments c"
  "history (redactFields getRoot setRoot c ks) = history c"
  "redactOverrides (redactFields getRoot setRoot c ks) = redactOverrides c"
  by (rule redactFields_frame, simp add: setRoot_def)+

lemma complaintWith_concerns:
  "complaintWith u X (escalationPath u) (complaint_attachments u) (history u) (redactOverrides u)
     = u\<lparr>concerns := X\<rparr>"
  by (cases u) (simp add: complaintWith_def)

lemma redactComplaintDeep_alt:
  "redactComplaintDeep t =
     complaintWith (redactFields getRoot setRoot t (filter (notFalse (flags (overridesOf t))) rootKeys))
       (map_option (map (redactConcern (overridesOf t))) (concerns t))
       (escalationPath t) (complaint_attachments t) (history t) (redactOverrides t)"
proof -
  define u where "u = redactFields getRoot setRoot t (filter (notFalse (flags (overridesOf t))) rootKeys)"
  have f: "concerns u = concerns t" "escalationPath u = escalationPath t"
    "complaint_attachments u = complaint_attachments t" "history u = history t"
    "redactOverrides u = redactOverrides t"
    unfolding u_def by (rule redactFields_root_children)+
  have "complaintWith u (map_option (map (redactConcern (overridesOf t))) (concerns t))
       (escalationPath u) (complaint_attachments u) (history u) (redactOverrides u)
      = u\<lparr>concerns := map_option (map (redactConcern (overridesOf t))) (concerns t)\<rparr>"
    by (rule complaintWith_concerns)
  moreover have "redactComplaintDeep t = u\<lparr>concerns := map_option (map (redactConcern (overridesOf t))) (concerns t)\<rparr>"
    using f(1) by (cases "concerns t") (simp_all add: redactComplaintDeep_def Let_def u_def [symmetric])
  ultimately have "redactComplaintDeep t =
      complaintWith u (map_option (map (redactConcern (overridesOf t))) (concerns t))
       (escalationPath u) (complaint_attachments u) (history u) (redactOverrides u)" by simp
  then show ?thesis unfolding f unfolding u_def .
qed

lemma prefixI:
  assumes "length h \<le> length h'" and "\<And>x. x < length h \<Longrightarrow> h' ! x = h ! x"
  shows "take (length h) h' = h"
  using assms by (simp add: list_eq_iff_nth_eq)

lemma complaintAt_prefix:
  assumes "complaintAt lo h a = Some c" and "take (length h) h' = h"
  shows "complaintAt lo h' a = Some c"
proof -
  from assms(1) have "a < length h" unfolding complaintAt_Some using cellAt_bounds by blast
  then have "h' ! a = h ! a" using assms(2) by (simp add: prefix_nth)
  with assms(1) evolves_prefix [OF assms(2)] show ?thesis by (rule complaintAt_same)
qed

lemma objectsOr_evolves:
  assumes "objectsOr h x = Some as" and "evolves h h'"
  shows "objectsOr h' x = Some as"
proof (cases x)
  case None
  with assms(1) show ?thesis by (simp add: objectsOr_def)
next
  case (Some a)
  with assms(1) have "objectsAt 0 h a = Some as" by (simp add: objectsOr_def)
  then have "objectsAt 0 h' a = Some as" using assms(2) by (rule objectsAt_evolves)
  with Some show ?thesis by (simp add: objectsOr_def)
qed

lemma readArray_mapped:
  assumes r: "readArray rd lo h x = Some v" and o: "objectsOr h x = Some as" and e: "evolves h h'"
    and m: "mapM (rd lo h') as = Some (map g (listOf v))"
  shows "readArray rd lo h' x = Some (map_option (map g) v)"
proof (cases x)
  case None
  with r show ?thesis by (simp add: readArray_def)
next
  case (Some a)
  with r obtain as' vs where v: "v = Some vs" and a: "objectsAt lo h a = Some as'"
    unfolding readArray_Some by auto
  from o Some objectsAt_lo [OF a] have "as' = as" by (simp add: objectsOr_def)
  with a have "objectsAt lo h a = Some as" by simp
  then have "objectsAt lo h' a = Some as" using e by (rule objectsAt_evolves)
  with m show ?thesis by (simp add: readArray_Some Some v listOf_def)
qed

lemma allocComplaint_spec:
  assumes a: "allocComplaint t h = (r, h')"
  shows "take (length h) h' = h \<and> length h \<le> r \<and>
    (\<exists>cs ep at hs ov as. distinct as \<and> (\<forall>x \<in> set as. length h \<le> x) \<and> objectsOr h' cs = Some as \<and>
       (\<forall>lo \<le> length h.
          complaintAt lo h' r = Some (complaintWith t cs ep at hs ov) \<and>
          readArray readConcern lo h' cs = Some (concerns t) \<and>
          mapM (readConcern lo h') as = Some (listOf (concerns t)) \<and>
          readStrings lo h' ep = Some (escalationPath t) \<and>
          readStrings lo h' at = Some (complaint_attachments t) \<and>
          readArray readHistoryEntry lo h' hs = Some (history t) \<and>
          readOverrides lo h' ov = Some (redactOverrides t)))"
proof -
  obtain cs h1 where s1: "allocArray allocConcern (concerns t) h = (cs, h1)"
    by (cases "allocArray allocConcern (concerns t) h")
  obtain ep h2 where s2: "allocStrings (escalationPath t) h1 = (ep, h2)"
    by (cases "allocStrings (escalationPath t) h1")
  obtain at h3 where s3: "allocStrings (complaint_attachments t) h2 = (at, h3)"
    by (cases "allocStrings (complaint_attachments t) h2")
  obtain hs h4 where s4: "allocArray allocHistoryEntry (history t) h3 = (hs, h4)"
    by (cases "allocArray allocHistoryEntry (history t) h3")
  obtain ov h5 where s5: "allocOverrides (redactOverrides t) h4 = (ov, h5)"
    by (cases "allocOverrides (redactOverrides t) h4")
  from a s1 s2 s3 s4 s5 have r: "r = length h5"
    and h': "h' = h5 @ [ComplaintObj (complaintWith t cs ep at hs ov)]"
    by (simp_all add: allocComplaint_def alloc_def)
  note c = allocConcerns_spec [OF s1]
  from c obtain as where d: "distinct as" and o1: "objectsOr h1 cs = Some as"
    and m1: "\<forall>lo \<le> length h. mapM (readConcern lo h1) as = Some (listOf (concerns t))"
    and b: "\<forall>x \<in> set as. length h \<le> x" by blast
  have p1: "take (length h) h1 = h" using c by blast
  have p2: "take (length h1) h2 = h1" using builds_strings s2 by (rule buildsOptD)
  have p3: "take (length h2) h3 = h2" using builds_strings s3 by (rule buildsOptD)
  have p4: "take (length h3) h4 = h3" using builds_histories s4 by (rule buildsOptD)
  have p5: "take (length h4) h5 = h4" using builds_overrides s5 by (rule buildsOptD)
  have p6: "take (length h5) h' = h5" by (simp add: h')
  have q5: "take (length h4) h' = h4" using p5 p6 by (rule prefix_trans)
  have q4: "take (length h3) h' = h3" using p4 q5 by (rule prefix_trans)
  have q3: "take (length h2) h' = h2" using p3 q4 by (rule prefix_trans)
  have q2: "take (length h1) h' = h1" using p2 q3 by (rule prefix_trans)
  have q1: "take (length h) h' = h" using p1 q2 by (rule prefix_trans)
  have l: "length h \<le> length h1" "length h1 \<le> length h2" "length h2 \<le> length h3"
    "length h3 \<le> length h4" "length h4 \<le> length h5"
    using p1 p2 p3 p4 p5 by (simp_all add: prefix_length)
  have o: "objectsOr h' cs = Some as" using o1 evolves_prefix [OF q2] by (rule objectsOr_evolves)
  have rd: "complaintAt lo h' r = Some (complaintWith t cs ep at hs ov) \<and>
          readArray readConcern lo h' cs = Some (concerns t) \<and>
          mapM (readConcern lo h') as = Some (listOf (concerns t)) \<and>
          readStrings lo h' ep = Some (escalationPath t) \<and>
          readStrings lo h' at = Some (complaint_attachments t) \<and>
          readArray readHistoryEntry lo h' hs = Some (history t) \<and>
          readOverrides lo h' ov = Some (redactOverrides t)" if lo: "lo \<le> length h" for lo
  proof -
    have "readArray readConcern lo h1 cs = Some (concerns t)" using c lo by blast
    with stable_concern have r1: "readArray readConcern lo h' cs = Some (concerns t)"
      using q2 by (rule readArray_stable)
    have "mapM (readConcern lo h1) as = Some (listOf (concerns t))" using m1 lo by blast
    then have r1': "mapM (readConcern lo h') as = Some (listOf (concerns t))"
      by (rule mapM_mono) (erule readConcern_prefix, rule q2)
    have "lo \<le> length h1" using lo l by simp
    with builds_strings s2 have "readStrings lo h2 ep = Some (escalationPath t)" by (rule buildsOptD)
    then have r2: "readStrings lo h' ep = Some (escalationPath t)" using q3 by (rule readStrings_prefix)
    have "lo \<le> length h2" using lo l by simp
    with builds_strings s3 have "readStrings lo h3 at = Some (complaint_attachments t)" by (rule buildsOptD)
    then have r3: "readStrings lo h' at = Some (complaint_attachments t)" using q4 by (rule readStrings_prefix)
    have "lo \<le> length h3" using lo l by simp
    with builds_histories s4 have "readArray readHistoryEntry lo h4 hs = Some (history t)" by (rule buildsOptD)
    with stable_history have r4: "readArray readHistoryEntry lo h' hs = Some (history t)"
      using q5 by (rule readArray_stable)
    have "lo \<le> length h4" using lo l by simp
    with builds_overrides s5 have "readOverrides lo h5 ov = Some (redactOverrides t)" by (rule buildsOptD)
    then have r5: "readOverrides lo h' ov = Some (redactOverrides t)" using p6 by (rule readOverrides_prefix)
    have "complaintAt lo h' r = Some (complaintWith t cs ep at hs ov)"
      using lo l by (simp add: complaintAt_Some r h' cellAt_alloc)
    with r1 r1' r2 r3 r4 r5 show ?thesis by blast
  qed
  have "length h \<le> r" using l by (simp add: r)
  with q1 d b o rd show ?thesis by blast
qed

lemma mapM_member: "mapM f xs = Some ys \<Longrightarrow> x \<in> set xs \<Longrightarrow> \<exists>y. f x = Some y"
  by (induction xs arbitrary: ys) (auto split: option.splits)

lemma redactComplaintDeep_store_spec:
  assumes rc: "readComplaint 0 h a = Some t"
  shows "\<exists>r h'. redactComplaintDeep_store h a = Some (r, h') \<and> take (length h) h' = h \<and>
     length h \<le> r \<and> readComplaint (length h) h' r = Some (redactComplaintDeep t)"
proof -
  obtain r h1 where al: "allocComplaint t h = (r, h1)" by (cases "allocComplaint t h")
  note sp = allocComplaint_spec [OF al]
  have p1: "take (length h) h1 = h" and rb: "length h \<le> r" using sp by blast+
  from sp obtain cs ep at hs ov as where d: "distinct as" and ab: "\<forall>x \<in> set as. length h \<le> x"
    and o1: "objectsOr h1 cs = Some as"
    and rd: "\<forall>lo \<le> length h.
          complaintAt lo h1 r = Some (complaintWith t cs ep at hs ov) \<and>
          readArray readConcern lo h1 cs = Some (concerns t) \<and>
          mapM (readConcern lo h1) as = Some (listOf (concerns t)) \<and>
          readStrings lo h1 ep = Some (escalationPath t) \<and>
          readStrings lo h1 at = Some (complaint_attachments t) \<and>
          readArray readHistoryEntry lo h1 hs = Some (history t) \<and>
          readOverrides lo h1 ov = Some (redactOverrides t)" by blast
  define L where "L = length h"
  define r0 where "r0 = complaintWith t cs ep at hs ov"
  have rdL: "complaintAt L h1 r = Some r0" "readArray readConcern L h1 cs = Some (concerns t)"
    "mapM (readConcern L h1) as = Some (listOf (concerns t))"
    "readStrings L h1 ep = Some (escalationPath t)"
    "readStrings L h1 at = Some (complaint_attachments t)"
    "readArray readHistoryEntry L h1 hs = Some (history t)"
    "readOverrides L h1 ov = Some (redactOverrides t)"
    using rd unfolding L_def r0_def by simp_all
  have r0at: "complaintAt 0 h1 r = Some r0" using rdL(1) by (rule complaintAt_lo)
  have rcell: "r < length h1" "h1 ! r = ComplaintObj r0"
    using rdL(1) unfolding complaintAt_Some using cellAt_bounds by blast+
  from rc obtain c ovo where c: "complaintAt 0 h a = Some c"
    and co: "readOverrides 0 h (redactOverrides c) = Some ovo" and ovo: "ovo = redactOverrides t"
    unfolding readComplaint_Some by (auto simp: complaintWith_simps)
  have c1: "complaintAt 0 h1 a = Some c" using c p1 by (rule complaintAt_prefix)
  have co1: "readOverrides 0 h1 (redactOverrides c) = Some ovo" using co p1 by (rule readOverrides_prefix)
  define ks where "ks = filter (notFalse (flags (orEmpty ovo))) rootKeys"
  define r1 where "r1 = redactFields getRoot setRoot r0 ks"
  define h2 where "h2 = h1[r := ComplaintObj r1]"
  have ch: "concerns r1 = cs" "escalationPath r1 = ep" "complaint_attachments r1 = at"
    "history r1 = hs" "redactOverrides r1 = ov"
    by (simp_all add: r1_def redactFields_root_children r0_def complaintWith_simps)
  have e12: "evolves h1 h2" unfolding h2_def using rcell(2) by (rule evolves_complaint)
  have o2: "objectsOr h2 cs = Some as" using o1 e12 by (rule objectsOr_evolves)
  have m2: "mapM (readConcern L h2) as = Some (listOf (concerns t))"
    using rdL(3)
  proof (rule mapM_mono)
    fix x y
    assume y: "readConcern L h1 x = Some y"
    then obtain k where "concernAt L h1 x = Some k" unfolding readConcern_Some by blast
    then have "h1 ! x = ConcernObj k" unfolding concernAt_Some using cellAt_bounds by blast
    with rcell(2) have "x \<noteq> r" by auto
    then have "h2 ! x = h1 ! x" by (simp add: h2_def)
    with y e12 show "readConcern L h2 x = Some y" by (rule readConcern_evolves)
  qed
  have co2: "readOverrides 0 h2 (redactOverrides c) = Some ovo" using co1 e12 by (rule readOverrides_evolves)
  from forEachStore_spec [OF d m2 co2] obtain h3
    where fe: "forEachStore (redactConcern_store (redactOverrides c)) as h2 = Some h3"
      and a23: "assigns (set as) h2 h3"
      and m3: "mapM (readConcern L h3) as = Some (map (redactConcern (orEmpty ovo)) (listOf (concerns t)))"
    by blast
  have s: "redactComplaintDeep_store h a = Some (r, h3)"
    using rc al c1 co1 r0at o2 fe
    by (simp add: redactComplaintDeep_store_def Let_def ks_def [symmetric] r1_def [symmetric]
        h2_def [symmetric] ch)
  have e23: "evolves h2 h3" using a23 by (rule assignsD)
  have e13: "evolves h1 h3" using e12 e23 by (rule evolves_trans)
  have l: "length h \<le> length h1" "length h1 = length h2" "length h2 \<le> length h3"
    using prefix_length [OF p1] evolves_length [OF e23] by (simp_all add: h2_def)
  have p3: "take (length h) h3 = h"
  proof (rule prefixI)
    show "length h \<le> length h3" using l by simp
    fix x
    assume x: "x < length h"
    then have "x \<notin> set as" using ab by auto
    moreover have "x < length h2" using x l by simp
    ultimately have "h3 ! x = h2 ! x" using a23 by (simp add: assignsD(2))
    also have "h2 ! x = h1 ! x" using x rb by (simp add: h2_def)
    also have "h1 ! x = h ! x" using p1 x by (rule prefix_nth)
    finally show "h3 ! x = h ! x" .
  qed
  have rnot: "r \<notin> set as"
  proof
    assume "r \<in> set as"
    with rdL(3) have "\<exists>y. readConcern L h1 r = Some y" by (rule mapM_member)
    then obtain y where "readConcern L h1 r = Some y" ..
    then obtain k where "concernAt L h1 r = Some k" unfolding readConcern_Some by blast
    then have "h1 ! r = ConcernObj k" unfolding concernAt_Some using cellAt_bounds by blast
    with rcell(2) show False by simp
  qed
  have "h3 ! r = h2 ! r" using a23 rcell(1) l rnot by (simp add: assignsD(2))
  then have "h3 ! r = ComplaintObj r1" using rcell(1) by (simp add: h2_def)
  then have k3: "complaintAt L h3 r = Some r1"
    using rb rcell(1) l by (simp add: complaintAt_Some cellAt_def L_def)
  define X where "X = map_option (map (redactConcern (orEmpty ovo))) (concerns t)"
  have "readArray readConcern L h3 cs = Some X"
    unfolding X_def using rdL(2) o1 e13 m3 by (rule readArray_mapped)
  then have f1: "readArray readConcern L h3 (concerns r1) = Some X" by (simp only: ch)
  have f2: "readStrings L h3 (escalationPath r1) = Some (escalationPath t)"
    using readStrings_evolves [OF rdL(4) e13] by (simp only: ch)
  have f3: "readStrings L h3 (complaint_attachments r1) = Some (complaint_attachments t)"
    using readStrings_evolves [OF rdL(5) e13] by (simp only: ch)
  have f4: "readArray readHistoryEntry L h3 (history r1) = Some (history t)"
    using readHistory_evolves [OF rdL(6) e13] by (simp only: ch)
  have f5: "readOverrides L h3 (redactOverrides r1) = Some (redactOverrides t)"
    using readOverrides_evolves [OF rdL(7) e13] by (simp only: ch)
  have rr: "readComplaint L h3 r
      = Some (complaintWith r1 X (escalationPath t) (complaint_attachments t) (history t) (redactOverrides t))"
    unfolding readComplaint_Some
    by (intro exI conjI) (rule k3, rule f1, rule f2, rule f3, rule f4, rule f5, rule refl)
  have "complaintWith r1 X (escalationPath t) (complaint_attachments t) (history t) (redactOverrides t)
      = redactFields getRoot setRoot
          (complaintWith r0 X (escalationPath t) (complaint_attachments t) (history t) (redactOverrides t)) ks"
    unfolding r1_def by (rule redactFields_complaintWith)
  also have "complaintWith r0 X (escalationPath t) (complaint_attachments t) (history t) (redactOverrides t)
      = complaintWith t X (escalationPath t) (complaint_attachments t) (history t) (redactOverrides t)"
    unfolding r0_def by (rule complaintWith_simps(6))
  also have "redactFields getRoot setRoot
       (complaintWith t X (escalationPath t) (complaint_attachments t) (history t) (redactOverrides t)) ks
     = complaintWith (redactFields getRoot setRoot t ks) X
         (escalationPath t) (complaint_attachments t) (history t) (redactOverrides t)"
    by (rule redactFields_complaintWith [symmetric])
  also have "\<dots> = redactComplaintDeep t"
    unfolding redactComplaintDeep_alt X_def ks_def overridesOf_def ovo by (rule refl)
  finally have "readComplaint L h3 r = Some (redactComplaintDeep t)" using rr by simp
  with s p3 rb show ?thesis unfolding L_def by blast
qed

lemma allocComplaint_read:
  assumes a: "allocComplaint t h = (r, h')" and lo: "lo \<le> length h"
  shows "readComplaint lo h' r = Some t"
proof -
  from allocComplaint_spec [OF a] lo obtain cs ep at hs ov
    where k: "complaintAt lo h' r = Some (complaintWith t cs ep at hs ov)"
      and f1: "readArray readConcern lo h' cs = Some (concerns t)"
      and f2: "readStrings lo h' ep = Some (escalationPath t)"
      and f3: "readStrings lo h' at = Some (complaint_attachments t)"
      and f4: "readArray readHistoryEntry lo h' hs = Some (history t)"
      and f5: "readOverrides lo h' ov = Some (redactOverrides t)" by blast
  define r0 where "r0 = complaintWith t cs ep at hs ov"
  have ch: "concerns r0 = cs" "escalationPath r0 = ep" "complaint_attachments r0 = at"
    "history r0 = hs" "redactOverrides r0 = ov"
    by (simp_all add: r0_def complaintWith_simps)
  have "readComplaint lo h' r
      = Some (complaintWith r0 (concerns t) (escalationPath t) (complaint_attachments t) (history t)
                (redactOverrides t))"
    unfolding readComplaint_Some
    by (intro exI conjI) (rule k [folded r0_def], simp_all only: ch f1 f2 f3 f4 f5)
  also have "complaintWith r0 (concerns t) (escalationPath t) (complaint_attachments t) (history t)
                (redactOverrides t) = t"
    unfolding r0_def by (simp only: complaintWith_simps)
  finally show ?thesis .
qed

section \<open>Redaction and the caller's record\<close>

text \<open>
  C6. Redaction never mutates its input. Let the store \<open>h\<close> hold a complaint record at
  address \<open>R\<close> whose value, with all nested concerns, notes, responses, URL lists,
  attachments, history and overrides, is \<open>t\<close>. Then \<open>redactComplaintDeep\<close> returns: it
  yields an address \<open>r\<close> and a store \<open>h'\<close> such that

  \<^item> every cell of \<open>h\<close> is in \<open>h'\<close> as it was, so that \<open>R\<close> still reads as \<open>t\<close>: nothing
    that existed before the call was assigned to;
  \<^item> \<open>r\<close> is an address that did not exist in \<open>h\<close>, and the structure at \<open>r\<close> reads, through
    cells that did not exist in \<open>h\<close> only, as the redacted value of \<open>t\<close>: the result is newly
    built and shares no object or array with the record or with anything else the caller held.
\<close>

theorem redaction_never_mutates:
  assumes "readComplaint 0 h R = Some t"
  shows "\<exists>r h'. redactComplaintDeep_store h R = Some (r, h') \<and>
           take (length h) h' = h \<and>
           readComplaint 0 h' R = Some t \<and>
           length h \<le> r \<and>
           readComplaint (length h) h' r = Some (redactComplaintDeep t)"
proof -
  from redactComplaintDeep_store_spec [OF assms] obtain r h'
    where s: "redactComplaintDeep_store h R = Some (r, h')" and p: "take (length h) h' = h"
      and r: "length h \<le> r" "readComplaint (length h) h' r = Some (redactComplaintDeep t)"
    by blast
  have "readComplaint 0 h' R = Some t" using assms p by (rule readComplaint_prefix)
  with s p r show ?thesis by blast
qed

theorem redaction_never_mutates_witness:
  "readComplaint 0 (snd sample_store) (fst sample_store)
      = Some (sample_complaint\<lparr>redactOverrides := Some sample_overrides\<rparr>) \<and>
   (\<exists>r h'. redactComplaintDeep_store (snd sample_store) (fst sample_store) = Some (r, h') \<and>
      take (length (snd sample_store)) h' = snd sample_store \<and>
      readComplaint 0 h' (fst sample_store)
        = Some (sample_complaint\<lparr>redactOverrides := Some sample_overrides\<rparr>) \<and>
      length (snd sample_store) \<le> r \<and>
      readComplaint (length (snd sample_store)) h' r
        = Some (redactComplaintDeep (sample_complaint\<lparr>redactOverrides := Some sample_overrides\<rparr>)))"
proof -
  have "allocComplaint (sample_complaint\<lparr>redactOverrides := Some sample_overrides\<rparr>) []
      = (fst sample_store, snd sample_store)"
    by (simp add: sample_store_def)
  then have rd: "readComplaint 0 (snd sample_store) (fst sample_store)
      = Some (sample_complaint\<lparr>redactOverrides := Some sample_overrides\<rparr>)"
    by (rule allocComplaint_read) simp
  from rd redaction_never_mutates [OF rd] show ?thesis by (rule conjI)
qed

end
